theory Spec2Isabelle
  imports Main "HOL-Library.Word"
begin

unbundle bit_operations_syntax

section \<open>The write-intent bitmap of drivers/md (bitmap.c)\<close>

text \<open>
  The development embeds the counter engine of \<^verbatim>\<open>bitmap.c\<close>: the page pool
  (\<^verbatim>\<open>bitmap_checkpage\<close>, \<^verbatim>\<open>bitmap_checkfree\<close>), the counter map
  (\<^verbatim>\<open>bitmap_get_counter\<close>, \<^verbatim>\<open>bitmap_count_page\<close>, \<^verbatim>\<open>bitmap_set_pending\<close>),
  the bit file (\<^verbatim>\<open>bitmap_file_set_bit\<close>, \<^verbatim>\<open>bitmap_file_clear_bit\<close>, the page
  attributes, \<^verbatim>\<open>write_page\<close>, \<^verbatim>\<open>bitmap_update_sb\<close>, \<^verbatim>\<open>bitmap_file_kick\<close>,
  \<^verbatim>\<open>bitmap_unplug\<close>), and the operations that drive the counters
  (\<^verbatim>\<open>bitmap_startwrite\<close>, \<^verbatim>\<open>bitmap_endwrite\<close>, \<^verbatim>\<open>bitmap_daemon_work\<close>,
  \<^verbatim>\<open>bitmap_set_memory_bits\<close>, \<^verbatim>\<open>bitmap_resize\<close>).

  Conventions of the embedding.
  \<^item> A counter is a \<open>16 word\<close> (\<^verbatim>\<open>bitmap_counter_t\<close> is \<^verbatim>\<open>__u16\<close>); the 30-bit
    field \<^verbatim>\<open>count\<close> of a page slot is a \<open>30 word\<close>; \<^verbatim>\<open>missing_pages\<close>
    (\<^verbatim>\<open>unsigned long\<close>) is a \<open>64 word\<close>. Their arithmetic wraps as in C.
  \<^item> Sector numbers, chunk numbers and page indices are natural numbers: the
    64-bit wrap of a sector number is outside the model.
  \<^item> The code runs under \<^verbatim>\<open>counts.lock\<close>; the model is the sequential behaviour
    of one caller. Where \<^verbatim>\<open>bitmap_checkpage\<close> drops the lock to allocate, no other
    thread runs in the model; the re-tests the code makes after taking the lock
    again are kept as written.
  \<^item> The result of \<^verbatim>\<open>kzalloc\<close> is an argument of the model (\<open>True\<close>: a zeroed
    page was returned); the result of the block transport is an argument too.
  \<^item> A thread that goes to sleep on a wait queue is an outcome of the function
    (\<open>Suspended\<close>); a \<^verbatim>\<open>wake_up\<close> is counted in the state.
\<close>

subsection \<open>Constants and macros of bitmap.h\<close>

type_synonym bitmap_counter_t = "16 word"

text \<open>
  Modelled from the spec: the header \<^verbatim>\<open>bitmap.h\<close> (the counter masks and macros,
  \<^verbatim>\<open>COUNTER_MAX\<close>, the page geometry) is not among the source files. The spec gives
  a 16-bit counter whose low 14 bits are the count,
  \<^verbatim>\<open>COUNTER(x) = x & 0x3FFF\<close>, \<^verbatim>\<open>NEEDED(x) = (x & 0x8000) != 0\<close>,
  \<^verbatim>\<open>RESYNC(x) = (x & 0x4000) != 0\<close>, a counter page of
  nominally 4096 bytes and \<^verbatim>\<open>PAGE_COUNTER_RATIO = PAGE_SIZE / sizeof(counter)\<close>;
  the shift and the mask follow from the ratio, \<^verbatim>\<open>COUNTER_BYTE_SHIFT\<close> from the
  two bytes of a counter, and the superblock is 256 bytes.

  For \<^verbatim>\<open>COUNTER_MAX\<close> the source speaks itself: \<^verbatim>\<open>bitmap_read_sb\<close> refuses
  \<^verbatim>\<open>write_behind > COUNTER_MAX\<close> with the reason
  \<^verbatim>\<open>"write-behind limit out of range (0 - 16383)"\<close>, so \<^verbatim>\<open>COUNTER_MAX\<close> is 16383,
  all 14 bits of the count (the spec's \<^verbatim>\<open>0x3FFE\<close> is one less).
\<close>

definition NEEDED_MASK :: bitmap_counter_t where
  "NEEDED_MASK = 0x8000"

definition RESYNC_MASK :: bitmap_counter_t where
  "RESYNC_MASK = 0x4000"

definition COUNTER_MAX :: bitmap_counter_t where
  "COUNTER_MAX = 0x3FFF"

definition COUNTER :: "bitmap_counter_t \<Rightarrow> bitmap_counter_t" where
  "COUNTER x = x AND 0x3FFF"

definition NEEDED :: "bitmap_counter_t \<Rightarrow> bool" where
  "NEEDED x = (x AND NEEDED_MASK \<noteq> 0)"

definition RESYNC :: "bitmap_counter_t \<Rightarrow> bool" where
  "RESYNC x = (x AND RESYNC_MASK \<noteq> 0)"

definition PAGE_SIZE :: nat where
  "PAGE_SIZE = 4096"

definition PAGE_BIT_SHIFT :: nat where
  "PAGE_BIT_SHIFT = 15"

definition PAGE_BITS :: nat where
  "PAGE_BITS = 2 ^ PAGE_BIT_SHIFT"

definition COUNTER_BYTE_SHIFT :: nat where
  "COUNTER_BYTE_SHIFT = 1"

definition PAGE_COUNTER_RATIO :: nat where
  "PAGE_COUNTER_RATIO = 2048"

definition PAGE_COUNTER_SHIFT :: nat where
  "PAGE_COUNTER_SHIFT = 11"

definition PAGE_COUNTER_MASK :: nat where
  "PAGE_COUNTER_MASK = PAGE_COUNTER_RATIO - 1"

definition sizeof_bitmap_super_t :: nat where
  "sizeof_bitmap_super_t = 256"

subsection \<open>Page slots and the counter map\<close>

text \<open>
  \<^verbatim>\<open>struct bitmap_page\<close>. The pointer-sized field \<^verbatim>\<open>map\<close> is read in two ways by the
  code, and the bit \<^verbatim>\<open>hijacked\<close> says which: a pointer to a counter page (or NULL)
  while \<^verbatim>\<open>hijacked\<close> is 0, and the array of inline counters
  \<^verbatim>\<open>((bitmap_counter_t *)&bp[page].map)[hi]\<close> while it is 1. The model keeps the two
  readings apart: \<open>map_ptr\<close> is the page the slot owns (\<open>None\<close> is NULL; a page is
  the function from the byte offset \<^verbatim>\<open>pageoff\<close> to the counter stored there) and
  \<open>map_ctr\<close> holds the inline counters. The two places where the code moves
  between the readings are written out: a slot is hijacked only where the field
  is NULL, so its inline counters start at 0, and \<^verbatim>\<open>map = NULL\<close> on a hijacked
  slot clears them.
\<close>

record bitmap_page =
  map_ptr :: "(nat \<Rightarrow> bitmap_counter_t) option"
  map_ctr :: "nat \<Rightarrow> bitmap_counter_t"
  hijacked :: bool
  pending :: bool
  count :: "30 word"

text \<open>
  The C expression \<^verbatim>\<open>bp[page].map == NULL\<close>, on the one field that the two
  readings share: the bytes of the field of a hijacked slot are its inline
  counters 0 and 1 (the code touches no other byte of it), so the field is NULL
  exactly when both are 0; the field of any other slot is its pointer.
\<close>

definition map_is_null :: "bitmap_page \<Rightarrow> bool" where
  "map_is_null s =
     (if hijacked s then map_ctr s 0 = 0 \<and> map_ctr s 1 = 0 else map_ptr s = None)"

text \<open>\<^verbatim>\<open>struct bitmap_counts\<close>; \<open>bp\<close> is the array of \<open>pages\<close> slots.\<close>

record bitmap_counts =
  bp :: "nat \<Rightarrow> bitmap_page"
  pages :: nat
  missing_pages :: "64 word"
  chunkshift :: nat
  chunks :: nat

datatype errno = EINVAL | ENOENT | ENOMEM | ELOCK

text \<open>
  The error numbers; \<open>ELOCK\<close> stands for whatever \<^verbatim>\<open>md_lock_super\<close> returns when it
  fails (it is not \<^verbatim>\<open>-EINVAL\<close>: \<^verbatim>\<open>write_page\<close> tells the two apart).

  \<^verbatim>\<open>bitmap_checkpage\<close>: \<open>Inl\<close> is the negative return value, \<open>Inr\<close> the state after
  a return of 0. \<open>kzalloc_ok\<close> is whether the allocation, if it is reached, returns
  a page.
\<close>

definition bitmap_checkpage ::
  "bitmap_counts \<Rightarrow> nat \<Rightarrow> bool \<Rightarrow> bool \<Rightarrow> errno + bitmap_counts" where
  "bitmap_checkpage bitmap page create kzalloc_ok =
     (if page \<ge> pages bitmap then Inl EINVAL
      else if hijacked (bp bitmap page) then Inr bitmap
      else if map_ptr (bp bitmap page) \<noteq> None then Inr bitmap
      else if \<not> create then Inl ENOENT
      else if \<not> kzalloc_ok then
        (if map_ptr (bp bitmap page) = None
         then Inr (bitmap\<lparr>bp := (bp bitmap)(page := (bp bitmap page)
                     \<lparr>map_ctr := (\<lambda>hi. 0), hijacked := True\<rparr>)\<rparr>)
         else Inr bitmap)
      else if map_ptr (bp bitmap page) \<noteq> None \<or> hijacked (bp bitmap page)
        then Inr bitmap
      else Inr (bitmap\<lparr>bp := (bp bitmap)(page := (bp bitmap page)
                  \<lparr>map_ptr := Some (\<lambda>pageoff. 0)\<rparr>),
                missing_pages := missing_pages bitmap - 1\<rparr>))"

text \<open>\<^verbatim>\<open>bitmap_checkfree\<close>.\<close>

definition bitmap_checkfree :: "bitmap_counts \<Rightarrow> nat \<Rightarrow> bitmap_counts" where
  "bitmap_checkfree bitmap page =
     (if count (bp bitmap page) \<noteq> 0 then bitmap
      else if hijacked (bp bitmap page)
        then bitmap\<lparr>bp := (bp bitmap)(page := (bp bitmap page)
               \<lparr>map_ptr := None, map_ctr := (\<lambda>hi. 0), hijacked := False\<rparr>)\<rparr>
      else bitmap\<lparr>bp := (bp bitmap)(page := (bp bitmap page)\<lparr>map_ptr := None\<rparr>),
             missing_pages := missing_pages bitmap + 1\<rparr>)"

text \<open>\<^verbatim>\<open>bitmap_count_page\<close>: \<^verbatim>\<open>count += inc\<close> on the 30-bit field, then checkfree.\<close>

definition bitmap_count_page :: "bitmap_counts \<Rightarrow> nat \<Rightarrow> int \<Rightarrow> bitmap_counts" where
  "bitmap_count_page bitmap offset inc =
     (let chunk = drop_bit (chunkshift bitmap) offset;
          page = drop_bit PAGE_COUNTER_SHIFT chunk
      in bitmap_checkfree
           (bitmap\<lparr>bp := (bp bitmap)(page := (bp bitmap page)
              \<lparr>count := count (bp bitmap page) + word_of_int inc\<rparr>)\<rparr>) page)"

text \<open>\<^verbatim>\<open>bitmap_set_pending\<close>.\<close>

definition bitmap_set_pending :: "bitmap_counts \<Rightarrow> nat \<Rightarrow> bitmap_counts" where
  "bitmap_set_pending bitmap offset =
     (let chunk = drop_bit (chunkshift bitmap) offset;
          page = drop_bit PAGE_COUNTER_SHIFT chunk
      in if \<not> pending (bp bitmap page)
         then bitmap\<lparr>bp := (bp bitmap)(page := (bp bitmap page)\<lparr>pending := True\<rparr>)\<rparr>
         else bitmap)"

text \<open>
  The value of type \<^verbatim>\<open>bitmap_counter_t *\<close> that \<^verbatim>\<open>bitmap_get_counter\<close> returns:
  the inline counter \<open>hi\<close> of a hijacked slot, or the counter at byte offset
  \<open>pageoff\<close> of the slot's page. \<open>deref\<close> is \<^verbatim>\<open>*bmc\<close> and \<open>assign\<close> is
  \<^verbatim>\<open>*bmc = v\<close>. A pointer into a page that has been freed since is dangling in C;
  the model reads it as 0 and drops a write through it.
\<close>

datatype bmc_ptr = Inline_counter nat nat | Page_counter nat nat

fun deref :: "bitmap_counts \<Rightarrow> bmc_ptr \<Rightarrow> bitmap_counter_t" where
  "deref bitmap (Inline_counter page hi) = map_ctr (bp bitmap page) hi"
| "deref bitmap (Page_counter page pageoff) =
     (case map_ptr (bp bitmap page) of None \<Rightarrow> 0 | Some m \<Rightarrow> m pageoff)"

fun assign :: "bitmap_counts \<Rightarrow> bmc_ptr \<Rightarrow> bitmap_counter_t \<Rightarrow> bitmap_counts" where
  "assign bitmap (Inline_counter page hi) v =
     bitmap\<lparr>bp := (bp bitmap)(page := (bp bitmap page)
       \<lparr>map_ctr := (map_ctr (bp bitmap page))(hi := v)\<rparr>)\<rparr>"
| "assign bitmap (Page_counter page pageoff) v =
     (case map_ptr (bp bitmap page) of
        None \<Rightarrow> bitmap
      | Some m \<Rightarrow> bitmap\<lparr>bp := (bp bitmap)(page := (bp bitmap page)
                    \<lparr>map_ptr := Some (m(pageoff := v))\<rparr>)\<rparr>)"

text \<open>
  \<^verbatim>\<open>bitmap_get_counter\<close>: the returned pointer (\<open>None\<close> is NULL), \<^verbatim>\<open>*blocks\<close>, and
  the state (changed when checkpage allocated or hijacked the slot).
\<close>

definition get_counter_csize :: "bitmap_counts \<Rightarrow> nat \<Rightarrow> nat" where
  "get_counter_csize bitmap page =
     (if hijacked (bp bitmap page) \<or> map_ptr (bp bitmap page) = None
      then push_bit (chunkshift bitmap + PAGE_COUNTER_SHIFT - 1) 1
      else push_bit (chunkshift bitmap) 1)"

definition bitmap_get_counter ::
  "bitmap_counts \<Rightarrow> nat \<Rightarrow> bool \<Rightarrow> bool \<Rightarrow> bmc_ptr option \<times> nat \<times> bitmap_counts" where
  "bitmap_get_counter bitmap offset create kzalloc_ok =
     (let chunk = drop_bit (chunkshift bitmap) offset;
          page = drop_bit PAGE_COUNTER_SHIFT chunk;
          pageoff = push_bit COUNTER_BYTE_SHIFT (chunk AND PAGE_COUNTER_MASK);
          err = bitmap_checkpage bitmap page create kzalloc_ok;
          bitmap' = (case err of Inl e \<Rightarrow> bitmap | Inr b \<Rightarrow> b);
          csize = get_counter_csize bitmap' page;
          blocks = csize - (offset AND (csize - 1))
      in case err of
           Inl e \<Rightarrow> (None, blocks, bitmap')
         | Inr b \<Rightarrow>
             if hijacked (bp bitmap' page)
             then (Some (Inline_counter page (if pageoff > PAGE_COUNTER_MASK then 1 else 0)),
                   blocks, bitmap')
             else (Some (Page_counter page pageoff), blocks, bitmap'))"

subsection \<open>The bitmap object, its bit file and the array it serves\<close>

text \<open>
  The state flags of \<^verbatim>\<open>bitmap->flags\<close> (bit numbers of the absent header; the
  model keeps the set of flags that are set) and the page attributes, whose
  numbers the source gives.
\<close>

datatype bitmap_state = BITMAP_STALE | BITMAP_WRITE_ERROR | BITMAP_HOSTENDIAN

datatype bitmap_page_attr = BITMAP_PAGE_DIRTY | BITMAP_PAGE_PENDING | BITMAP_PAGE_NEEDWRITE

fun attr_num :: "bitmap_page_attr \<Rightarrow> nat" where
  "attr_num BITMAP_PAGE_DIRTY = 0"
| "attr_num BITMAP_PAGE_PENDING = 1"
| "attr_num BITMAP_PAGE_NEEDWRITE = 2"

text \<open>
  The superblock as \<^verbatim>\<open>bitmap_update_sb\<close> writes it. The field \<^verbatim>\<open>daemon_sleep\<close> is
  left out (its value is divided by \<^verbatim>\<open>HZ\<close>, a constant of the kernel
  configuration), and so are magic, version and uuid, which the modelled
  functions never write.
\<close>

record bitmap_super_t =
  sb_events :: nat
  sb_events_cleared :: nat
  sb_state :: "bitmap_state set"
  sb_write_behind :: nat
  sb_sync_size :: nat
  sb_chunksize :: nat
  sb_nodes :: nat
  sb_sectors_reserved :: nat

text \<open>
  \<^verbatim>\<open>struct bitmap_storage\<close>. \<open>storage_file\<close> is whether \<^verbatim>\<open>storage.file\<close> is set,
  \<open>sb_page\<close> the superblock held in page 0 (\<open>None\<close>: no superblock page),
  \<open>filemap\<close> the pages of the bit array (\<open>None\<close> is NULL): page \<open>i\<close> is the
  predicate on bit offsets that says which bits are set, in the bit order the
  image uses. \<open>filemap_attr\<close> is the attribute bit vector, as the set of the bit
  numbers that are set. A \<^verbatim>\<open>struct page *\<close> of the filemap is its position, which
  is also its \<^verbatim>\<open>index\<close> field.
\<close>

record bitmap_storage =
  storage_file :: bool
  sb_page :: "bitmap_super_t option"
  filemap :: "(nat \<Rightarrow> nat \<Rightarrow> bool) option"
  filemap_attr :: "nat set"
  file_pages :: nat
  bytes :: nat

text \<open>The fields of \<^verbatim>\<open>struct mddev\<close> and its \<^verbatim>\<open>bitmap_info\<close> that the code reads.\<close>

record mddev =
  md_events :: nat
  md_degraded :: int
  md_resync_max_sectors :: nat
  md_recovery_cp :: nat
  bi_external :: bool
  bi_offset :: int
  bi_file :: bool
  bi_daemon_sleep :: nat
  bi_max_write_behind :: nat
  bi_chunksize :: nat
  bi_nodes :: nat
  bi_space :: nat
  thread_timeout :: "nat option"

text \<open>
  What the block transport and the lock manager answer when the code asks:
  the lock is refused, the alignment test of \<^verbatim>\<open>write_sb_page\<close> fails, a buffer of
  the file completes not up to date, or the request succeeds.
\<close>

datatype io_result = IO_done | IO_lock_refused | IO_bad_alignment | IO_not_uptodate

text \<open>A page handed to the transport: its index, the superblock it carried, its bits.\<close>

record page_write =
  w_index :: nat
  w_sb :: "bitmap_super_t option"
  w_bits :: "nat \<Rightarrow> bool"

text \<open>
  \<^verbatim>\<open>struct bitmap\<close>. \<open>overflow_wait\<close>, \<open>behind_wait\<close> and \<open>write_wait\<close> count the
  calls of \<^verbatim>\<open>wake_up\<close> on the three wait queues; \<open>written\<close> lists the pages handed to the
  transport, latest first; \<open>transport\<close> is the sequence of answers the transport
  and the lock manager will give, in the order the code asks.
\<close>

record bitmap =
  counts :: bitmap_counts
  storage :: bitmap_storage
  mddev :: mddev
  flags :: "bitmap_state set"
  allclean :: bool
  need_sync :: bool
  events_cleared :: nat
  behind_writes :: int
  behind_writes_used :: "64 word"
  pending_writes :: int
  daemon_lastrun :: nat
  overflow_wait :: nat
  behind_wait :: nat
  write_wait :: nat
  written :: "page_write list"
  transport :: "nat \<Rightarrow> io_result"

text \<open>\<^verbatim>\<open>file_page_index\<close>, \<^verbatim>\<open>file_page_offset\<close>, \<^verbatim>\<open>filemap_get_page\<close>.\<close>

definition file_page_index :: "bitmap_storage \<Rightarrow> nat \<Rightarrow> nat" where
  "file_page_index store chunk =
     drop_bit PAGE_BIT_SHIFT
       (if sb_page store \<noteq> None then chunk + push_bit 3 sizeof_bitmap_super_t else chunk)"

definition file_page_offset :: "bitmap_storage \<Rightarrow> nat \<Rightarrow> nat" where
  "file_page_offset store chunk =
     (if sb_page store \<noteq> None then chunk + push_bit 3 sizeof_bitmap_super_t else chunk)
       AND (PAGE_BITS - 1)"

definition filemap_get_page :: "bitmap_storage \<Rightarrow> nat \<Rightarrow> nat option" where
  "filemap_get_page store chunk =
     (if file_page_index store chunk \<ge> file_pages store then None
      else Some (file_page_index store chunk - file_page_index store 0))"

text \<open>\<^verbatim>\<open>set_page_attr\<close>, \<^verbatim>\<open>clear_page_attr\<close>, \<^verbatim>\<open>test_page_attr\<close>.\<close>

definition set_page_attr :: "bitmap \<Rightarrow> nat \<Rightarrow> bitmap_page_attr \<Rightarrow> bitmap" where
  "set_page_attr bitmap pnum attr =
     bitmap\<lparr>storage := (storage bitmap)
       \<lparr>filemap_attr := insert (push_bit 2 pnum + attr_num attr)
                          (filemap_attr (storage bitmap))\<rparr>\<rparr>"

definition clear_page_attr :: "bitmap \<Rightarrow> nat \<Rightarrow> bitmap_page_attr \<Rightarrow> bitmap" where
  "clear_page_attr bitmap pnum attr =
     bitmap\<lparr>storage := (storage bitmap)
       \<lparr>filemap_attr := filemap_attr (storage bitmap)
                          - {push_bit 2 pnum + attr_num attr}\<rparr>\<rparr>"

definition test_page_attr :: "bitmap \<Rightarrow> nat \<Rightarrow> bitmap_page_attr \<Rightarrow> bool" where
  "test_page_attr bitmap pnum attr =
     (push_bit 2 pnum + attr_num attr \<in> filemap_attr (storage bitmap))"

text \<open>
  \<^verbatim>\<open>set_bit\<close>/\<^verbatim>\<open>set_bit_le\<close> and \<^verbatim>\<open>clear_bit\<close>/\<^verbatim>\<open>clear_bit_le\<close> on a page of the
  filemap. A page of the model is indexed in the bit order of the image, so the
  host-endian and the little-endian operation are the same function here; the
  byte order of the page in memory is outside the model.
\<close>

definition page_set_bit :: "bitmap \<Rightarrow> nat \<Rightarrow> nat \<Rightarrow> bool \<Rightarrow> bitmap" where
  "page_set_bit bitmap page bit_n v =
     (case filemap (storage bitmap) of
        None \<Rightarrow> bitmap
      | Some fm \<Rightarrow> bitmap\<lparr>storage := (storage bitmap)
                     \<lparr>filemap := Some (fm(page := (fm page)(bit_n := v)))\<rparr>\<rparr>)"

text \<open>\<^verbatim>\<open>bitmap_file_set_bit\<close>.\<close>

definition bitmap_file_set_bit :: "bitmap \<Rightarrow> nat \<Rightarrow> bitmap" where
  "bitmap_file_set_bit bitmap block =
     (let chunk = drop_bit (chunkshift (counts bitmap)) block
      in case filemap_get_page (storage bitmap) chunk of
           None \<Rightarrow> bitmap
         | Some page \<Rightarrow>
             (let bit_n = file_page_offset (storage bitmap) chunk;
                  bitmap1 = (if BITMAP_HOSTENDIAN \<in> flags bitmap
                             then page_set_bit bitmap page bit_n True
                             else page_set_bit bitmap page bit_n True)
              in set_page_attr bitmap1 page BITMAP_PAGE_DIRTY))"

text \<open>\<^verbatim>\<open>bitmap_file_clear_bit\<close>.\<close>

definition bitmap_file_clear_bit :: "bitmap \<Rightarrow> nat \<Rightarrow> bitmap" where
  "bitmap_file_clear_bit bitmap block =
     (let chunk = drop_bit (chunkshift (counts bitmap)) block
      in case filemap_get_page (storage bitmap) chunk of
           None \<Rightarrow> bitmap
         | Some page \<Rightarrow>
             (let bit_n = file_page_offset (storage bitmap) chunk;
                  bitmap1 = (if BITMAP_HOSTENDIAN \<in> flags bitmap
                             then page_set_bit bitmap page bit_n False
                             else page_set_bit bitmap page bit_n False)
              in if \<not> test_page_attr bitmap1 page BITMAP_PAGE_NEEDWRITE
                 then (set_page_attr bitmap1 page BITMAP_PAGE_PENDING)\<lparr>allclean := False\<rparr>
                 else bitmap1))"

subsection \<open>Writing pages: write_page, bitmap_update_sb, bitmap_file_kick, bitmap_unplug\<close>

text \<open>
  \<^verbatim>\<open>end_bitmap_write\<close>, the completion of a buffer of the file, and
  \<^verbatim>\<open>wait_event(bitmap->write_wait, pending_writes == 0)\<close>: the completions that are
  outstanding arrive, each with the next answer of the transport. (A count that
  is not positive has nothing outstanding; the code never lowers it below 0.)
\<close>

definition end_bitmap_write :: "bitmap \<Rightarrow> bool \<Rightarrow> bitmap" where
  "end_bitmap_write bitmap uptodate =
     (let bitmap1 = (if \<not> uptodate
                     then bitmap\<lparr>flags := insert BITMAP_WRITE_ERROR (flags bitmap)\<rparr>
                     else bitmap);
          bitmap2 = bitmap1\<lparr>pending_writes := pending_writes bitmap1 - 1\<rparr>
      in if pending_writes bitmap2 = 0
         then bitmap2\<lparr>write_wait := write_wait bitmap2 + 1\<rparr> else bitmap2)"

definition next_answer :: "bitmap \<Rightarrow> bitmap" where
  "next_answer bitmap = bitmap\<lparr>transport := (\<lambda>i. transport bitmap (Suc i))\<rparr>"

lemma end_bitmap_write_pending:
  "pending_writes (end_bitmap_write b u) = pending_writes b - 1"
  by (simp add: end_bitmap_write_def Let_def)

function wait_pending_writes :: "bitmap \<Rightarrow> bitmap" where
  "wait_pending_writes bitmap =
     (if pending_writes bitmap \<le> 0 then bitmap
      else wait_pending_writes
             (end_bitmap_write (next_answer bitmap) (transport bitmap 0 \<noteq> IO_not_uptodate)))"
  by pat_completeness auto
termination
  by (relation "measure (\<lambda>b. nat (pending_writes b))")
     (auto simp: end_bitmap_write_pending next_answer_def)

text \<open>
  \<^verbatim>\<open>write_sb_page\<close>: the cluster lock is refused (the lock's error is returned), a
  member fails the alignment test (\<^verbatim>\<open>-EINVAL\<close>), or the page goes to the members
  (0). The members are not modelled one by one: the page is either handed to the
  transport or not.
\<close>

definition page_snapshot :: "bitmap \<Rightarrow> nat \<Rightarrow> page_write" where
  "page_snapshot bitmap page =
     \<lparr>w_index = page,
      w_sb = (if page = 0 then sb_page (storage bitmap) else None),
      w_bits = (case filemap (storage bitmap) of None \<Rightarrow> (\<lambda>n. False) | Some fm \<Rightarrow> fm page)\<rparr>"

definition write_sb_page :: "bitmap \<Rightarrow> nat \<Rightarrow> bool \<Rightarrow> errno option \<times> bitmap" where
  "write_sb_page bitmap page wait =
     (case transport bitmap 0 of
        IO_lock_refused \<Rightarrow> (Some ELOCK, next_answer bitmap)
      | IO_bad_alignment \<Rightarrow> (Some EINVAL, next_answer bitmap)
      | _ \<Rightarrow> (None, (next_answer bitmap)
                      \<lparr>written := page_snapshot bitmap page # written bitmap\<rparr>))"

text \<open>
  \<^verbatim>\<open>write_page\<close> up to its last test: the device path sets
  \<^verbatim>\<open>BITMAP_WRITE_ERROR\<close> on \<^verbatim>\<open>-EINVAL\<close> only; the file path submits the buffer of the
  page (one mapped buffer for each page in the model) and, with \<open>wait\<close>, waits
  for the completions.
\<close>

definition write_page_io :: "bitmap \<Rightarrow> nat \<Rightarrow> bool \<Rightarrow> bitmap" where
  "write_page_io bitmap page wait =
     (if \<not> storage_file (storage bitmap) then
        (case write_sb_page bitmap page wait of
           (Some EINVAL, b) \<Rightarrow> b\<lparr>flags := insert BITMAP_WRITE_ERROR (flags b)\<rparr>
         | (_, b) \<Rightarrow> b)
      else
        (let bitmap1 = bitmap\<lparr>pending_writes := pending_writes bitmap + 1,
                               written := page_snapshot bitmap page # written bitmap\<rparr>
         in if wait then wait_pending_writes bitmap1 else bitmap1))"

declare wait_pending_writes.simps [simp del]

lemma wait_pending_writes_stale:
  "(BITMAP_STALE \<in> flags (wait_pending_writes b)) = (BITMAP_STALE \<in> flags b)"
proof (induction b rule: wait_pending_writes.induct)
  case (1 bitmap)
  show ?case
  proof (cases "pending_writes bitmap \<le> 0")
    case True
    then show ?thesis by (simp add: wait_pending_writes.simps [of bitmap])
  next
    case False
    from "1" [OF False] False show ?thesis
      by (simp add: wait_pending_writes.simps [of bitmap] end_bitmap_write_def
          next_answer_def Let_def)
  qed
qed

lemma write_sb_page_stale:
  "write_sb_page b page wait = (r, b') \<Longrightarrow>
   (BITMAP_STALE \<in> flags b') = (BITMAP_STALE \<in> flags b)"
  by (cases "transport b 0") (auto simp: write_sb_page_def next_answer_def)

lemma write_page_io_stale:
  "(BITMAP_STALE \<in> flags (write_page_io b page wait)) = (BITMAP_STALE \<in> flags b)"
proof (cases "storage_file (storage b)")
  case True
  then show ?thesis
    by (simp add: write_page_io_def Let_def wait_pending_writes_stale)
next
  case False
  obtain r b' where w: "write_sb_page b page wait = (r, b')"
    by (cases "write_sb_page b page wait") auto
  from write_sb_page_stale [OF w] False w show ?thesis
    by (cases r; simp add: write_page_io_def split: errno.splits)
qed

text \<open>
  The superblock that \<^verbatim>\<open>bitmap_update_sb\<close> fills in, after it has clamped
  \<^verbatim>\<open>events_cleared\<close>.
\<close>

definition fill_sb :: "bitmap \<Rightarrow> bitmap_super_t \<Rightarrow> bitmap_super_t" where
  "fill_sb bitmap sb =
     sb\<lparr>sb_events := md_events (mddev bitmap),
        sb_events_cleared := events_cleared bitmap,
        sb_state := flags bitmap,
        sb_write_behind := bi_max_write_behind (mddev bitmap),
        sb_sync_size := md_resync_max_sectors (mddev bitmap),
        sb_chunksize := bi_chunksize (mddev bitmap),
        sb_nodes := bi_nodes (mddev bitmap),
        sb_sectors_reserved := bi_space (mddev bitmap)\<rparr>"

definition update_sb_prepare :: "bitmap \<Rightarrow> bitmap_super_t \<Rightarrow> bitmap" where
  "update_sb_prepare bitmap sb =
     (let bitmap1 = (if md_events (mddev bitmap) < events_cleared bitmap
                     then bitmap\<lparr>events_cleared := md_events (mddev bitmap)\<rparr>
                     else bitmap)
      in next_answer
           (bitmap1\<lparr>storage := (storage bitmap1)\<lparr>sb_page := Some (fill_sb bitmap1 sb)\<rparr>\<rparr>))"

lemma update_sb_prepare_stale:
  "(BITMAP_STALE \<in> flags (update_sb_prepare b sb)) = (BITMAP_STALE \<in> flags b)"
  by (simp add: update_sb_prepare_def next_answer_def Let_def)



text \<open>
  \<^verbatim>\<open>write_page\<close>, \<^verbatim>\<open>bitmap_file_kick\<close> and \<^verbatim>\<open>bitmap_update_sb\<close> call each other:
  a write that finds \<^verbatim>\<open>BITMAP_WRITE_ERROR\<close> set kicks the file, the first kick
  (\<^verbatim>\<open>test_and_set_bit(BITMAP_STALE)\<close>) updates the superblock, and that update
  writes page 0. \<^verbatim>\<open>bitmap_update_sb\<close> is modelled up to the write of the
  superblock page; the per-node event records that follow in the source use
  fields that the rest of the source does not declare.
\<close>

function write_page :: "bitmap \<Rightarrow> nat \<Rightarrow> bool \<Rightarrow> bitmap"
  and bitmap_file_kick :: "bitmap \<Rightarrow> bitmap"
  and bitmap_update_sb :: "bitmap \<Rightarrow> bitmap" where
  "write_page bitmap page wait =
     (if BITMAP_WRITE_ERROR \<in> flags (write_page_io bitmap page wait)
      then bitmap_file_kick (write_page_io bitmap page wait)
      else write_page_io bitmap page wait)"
| "bitmap_file_kick bitmap =
     (if BITMAP_STALE \<notin> flags bitmap
      then bitmap_update_sb (bitmap\<lparr>flags := insert BITMAP_STALE (flags bitmap)\<rparr>)
      else bitmap)"
| "bitmap_update_sb bitmap =
     (if bi_external (mddev bitmap) then bitmap
      else case sb_page (storage bitmap) of
             None \<Rightarrow> bitmap
           | Some sb \<Rightarrow>
               (if transport bitmap 0 = IO_lock_refused
                then update_sb_prepare bitmap sb
                else write_page (update_sb_prepare bitmap sb) 0 True))"
  by pat_completeness auto
termination
  by (relation "measure (\<lambda>x. case x of
          Inl (b, page, wait) \<Rightarrow> (if BITMAP_STALE \<in> flags b then 1 else 4)
        | Inr (Inl b) \<Rightarrow> (if BITMAP_STALE \<in> flags b then 0 else 3)
        | Inr (Inr b) \<Rightarrow> (if BITMAP_STALE \<in> flags b then 2 else 5))")
     (auto simp: write_page_io_stale update_sb_prepare_stale)


declare write_page.simps [simp del] bitmap_file_kick.simps [simp del]
  bitmap_update_sb.simps [simp del]


subsection \<open>bitmap_startwrite and bitmap_endwrite\<close>

text \<open>
  One pass through the body of the \<^verbatim>\<open>while (sectors)\<close> loop of
  \<^verbatim>\<open>bitmap_startwrite\<close>, at \<open>offset\<close>: the counter pointer was NULL and the function
  returns (\<open>Step_null\<close>), the counter is at \<^verbatim>\<open>COUNTER_MAX\<close> and the thread sleeps on
  \<^verbatim>\<open>overflow_wait\<close> (\<open>Step_wait\<close>), or the counter was raised and the loop goes on
  \<open>blocks\<close> sectors further (\<open>Step_done\<close>).
\<close>

datatype step = Step_null bitmap | Step_wait bitmap | Step_done bitmap nat

fun step_state :: "step \<Rightarrow> bitmap" where
  "step_state (Step_null b) = b"
| "step_state (Step_wait b) = b"
| "step_state (Step_done b blocks) = b"

definition startwrite_step :: "bitmap \<Rightarrow> nat \<Rightarrow> bool \<Rightarrow> step" where
  "startwrite_step bitmap offset kzalloc_ok =
     (case bitmap_get_counter (counts bitmap) offset True kzalloc_ok of
        (None, blocks, c) \<Rightarrow> Step_null (bitmap\<lparr>counts := c\<rparr>)
      | (Some bmc, blocks, c) \<Rightarrow>
          (let bitmap1 = bitmap\<lparr>counts := c\<rparr>
           in if COUNTER (deref c bmc) = COUNTER_MAX then Step_wait bitmap1
              else
                (let bitmap2 =
                       (if deref c bmc = 0 then
                          (let bitmap_a = bitmap_file_set_bit bitmap1 offset;
                               bitmap_b = bitmap_a\<lparr>counts :=
                                 bitmap_count_page (counts bitmap_a) offset 1\<rparr>
                           in bitmap_b\<lparr>counts := assign (counts bitmap_b) bmc 2\<rparr>)
                        else if deref c bmc = 1 then
                          bitmap1\<lparr>counts := assign (counts bitmap1) bmc 2\<rparr>
                        else bitmap1);
                     bitmap3 = bitmap2\<lparr>counts := assign (counts bitmap2) bmc
                                         (deref (counts bitmap2) bmc + 1)\<rparr>
                 in Step_done bitmap3 blocks)))"

text \<open>
  What a call leaves behind: it returned, or its thread sleeps on
  \<^verbatim>\<open>overflow_wait\<close> with the rest of the range (\<open>offset\<close>, \<open>sectors\<close>) still to do.
\<close>

datatype outcome = Returned bitmap | Suspended bitmap nat nat

fun outcome_state :: "outcome \<Rightarrow> bitmap" where
  "outcome_state (Returned b) = b"
| "outcome_state (Suspended b offset sectors) = b"

lemma and_pow2_minus_1: "(x::nat) AND (2 ^ k - 1) = x mod 2 ^ k"
  by (metis mask_eq_exp_minus_1 take_bit_eq_mask take_bit_eq_mod)

lemma and_pow2_minus_Suc0: "(x::nat) AND (2 ^ k - Suc 0) = x mod 2 ^ k"
  using and_pow2_minus_1 [of x k] by simp

lemma get_counter_csize_cases:
  "get_counter_csize c p = 2 ^ (chunkshift c + PAGE_COUNTER_SHIFT - 1) \<or>
   get_counter_csize c p = 2 ^ chunkshift c"
  by (simp add: get_counter_csize_def push_bit_eq_mult)

lemma get_counter_csize_pos: "0 < get_counter_csize c p"
  using get_counter_csize_cases [of c p] by auto

lemma get_counter_csize_mask:
  "x AND (get_counter_csize c p - 1) = x mod get_counter_csize c p"
  using get_counter_csize_cases [of c p] by (auto simp: and_pow2_minus_Suc0)

lemma get_counter_blocks:
  "bitmap_get_counter c offset create ok = (r, blocks, c') \<Longrightarrow>
   blocks = get_counter_csize c' (drop_bit PAGE_COUNTER_SHIFT (drop_bit (chunkshift c) offset))
            - offset mod get_counter_csize c'
                (drop_bit PAGE_COUNTER_SHIFT (drop_bit (chunkshift c) offset))"
  unfolding bitmap_get_counter_def Let_def
  by (auto simp only: get_counter_csize_mask split: sum.splits if_splits)

lemma get_counter_blocks_pos:
  "bitmap_get_counter c offset create ok = (r, blocks, c') \<Longrightarrow> 0 < blocks"
  using get_counter_csize_pos mod_less_divisor
  by (auto dest!: get_counter_blocks simp del: drop_bit_drop_bit)

lemma startwrite_step_blocks_pos:
  "startwrite_step b offset ok = Step_done b' blocks \<Longrightarrow> 0 < blocks"
  by (auto simp: startwrite_step_def Let_def split: prod.splits option.splits if_splits
      dest: get_counter_blocks_pos)

text \<open>The loop of \<^verbatim>\<open>bitmap_startwrite\<close>; \<open>kz i\<close> is the answer of \<^verbatim>\<open>kzalloc\<close> in pass \<open>i\<close>.\<close>

function startwrite_loop :: "bitmap \<Rightarrow> nat \<Rightarrow> nat \<Rightarrow> (nat \<Rightarrow> bool) \<Rightarrow> outcome" where
  "startwrite_loop bitmap offset sectors kz =
     (if sectors = 0 then Returned bitmap
      else case startwrite_step bitmap offset (kz 0) of
             Step_null b \<Rightarrow> Returned b
           | Step_wait b \<Rightarrow> Suspended b offset sectors
           | Step_done b blocks \<Rightarrow>
               startwrite_loop b (offset + blocks)
                 (if sectors > blocks then sectors - blocks else 0) (\<lambda>i. kz (Suc i)))"
  by pat_completeness auto
termination
  by (relation "measure (\<lambda>(b, offset, sectors, kz). sectors)")
     (auto dest: startwrite_step_blocks_pos)

declare startwrite_loop.simps [simp del]

text \<open>
  \<^verbatim>\<open>bitmap_startwrite\<close> (for a bitmap that is not NULL): the \<^verbatim>\<open>if (behind)\<close> block
  at its head, then the loop. \<^verbatim>\<open>bw\<close> is an \<^verbatim>\<open>int\<close> and \<^verbatim>\<open>behind_writes_used\<close> an
  \<^verbatim>\<open>unsigned long\<close>, so the comparison and the assignment convert \<^verbatim>\<open>bw\<close> to 64
  bits without sign.
\<close>

definition startwrite_behind :: "bitmap \<Rightarrow> bool \<Rightarrow> bitmap" where
  "startwrite_behind bitmap behind =
     (if behind then
        (let bitmap_a = bitmap\<lparr>behind_writes := behind_writes bitmap + 1\<rparr>;
             bw = behind_writes bitmap_a
         in if word_of_int bw > behind_writes_used bitmap_a
            then bitmap_a\<lparr>behind_writes_used := word_of_int bw\<rparr> else bitmap_a)
      else bitmap)"

definition bitmap_startwrite ::
  "bitmap \<Rightarrow> nat \<Rightarrow> nat \<Rightarrow> bool \<Rightarrow> (nat \<Rightarrow> bool) \<Rightarrow> outcome" where
  "bitmap_startwrite bitmap offset sectors behind kz =
     startwrite_loop (startwrite_behind bitmap behind) offset sectors kz"

text \<open>
  One pass through the body of the loop of \<^verbatim>\<open>bitmap_endwrite\<close>. The counter is
  looked up without \<^verbatim>\<open>create\<close>, so \<^verbatim>\<open>kzalloc\<close> is never reached.
\<close>

definition endwrite_step :: "bitmap \<Rightarrow> nat \<Rightarrow> bool \<Rightarrow> step" where
  "endwrite_step bitmap offset success =
     (case bitmap_get_counter (counts bitmap) offset False False of
        (None, blocks, c) \<Rightarrow> Step_null (bitmap\<lparr>counts := c\<rparr>)
      | (Some bmc, blocks, c) \<Rightarrow>
          (let bitmap1 = bitmap\<lparr>counts := c\<rparr>;
               bitmap2 =
                 (if success \<and> md_degraded (mddev bitmap1) = 0 \<and>
                     events_cleared bitmap1 < md_events (mddev bitmap1)
                  then bitmap1\<lparr>events_cleared := md_events (mddev bitmap1),
                               need_sync := True\<rparr>
                  else bitmap1);
               bitmap3 =
                 (if \<not> success \<and> \<not> NEEDED (deref (counts bitmap2) bmc)
                  then bitmap2\<lparr>counts := assign (counts bitmap2) bmc
                                 (deref (counts bitmap2) bmc OR NEEDED_MASK)\<rparr>
                  else bitmap2);
               bitmap4 =
                 (if COUNTER (deref (counts bitmap3) bmc) = COUNTER_MAX
                  then bitmap3\<lparr>overflow_wait := overflow_wait bitmap3 + 1\<rparr>
                  else bitmap3);
               bitmap5 = bitmap4\<lparr>counts := assign (counts bitmap4) bmc
                                   (deref (counts bitmap4) bmc - 1)\<rparr>;
               bitmap6 =
                 (if deref (counts bitmap5) bmc \<le> 2
                  then bitmap5\<lparr>counts := bitmap_set_pending (counts bitmap5) offset,
                               allclean := False\<rparr>
                  else bitmap5)
           in Step_done bitmap6 blocks))"

lemma endwrite_step_blocks_pos:
  "endwrite_step b offset success = Step_done b' blocks \<Longrightarrow> 0 < blocks"
  by (auto simp: endwrite_step_def Let_def split: prod.splits option.splits
      dest: get_counter_blocks_pos)

function endwrite_loop :: "bitmap \<Rightarrow> nat \<Rightarrow> nat \<Rightarrow> bool \<Rightarrow> bitmap" where
  "endwrite_loop bitmap offset sectors success =
     (if sectors = 0 then bitmap
      else case endwrite_step bitmap offset success of
             Step_null b \<Rightarrow> b
           | Step_wait b \<Rightarrow> b
           | Step_done b blocks \<Rightarrow>
               endwrite_loop b (offset + blocks)
                 (if sectors > blocks then sectors - blocks else 0) success)"
  by pat_completeness auto
termination
  by (relation "measure (\<lambda>(b, offset, sectors, success). sectors)")
     (auto dest: endwrite_step_blocks_pos)

declare endwrite_loop.simps [simp del]

text \<open>
  \<^verbatim>\<open>bitmap_endwrite\<close> (for a bitmap that is not NULL): the \<^verbatim>\<open>if (behind)\<close> block at
  its head, then the loop.
\<close>

definition endwrite_behind :: "bitmap \<Rightarrow> bool \<Rightarrow> bitmap" where
  "endwrite_behind bitmap behind =
     (if behind then
        (let bitmap_a = bitmap\<lparr>behind_writes := behind_writes bitmap - 1\<rparr>
         in if behind_writes bitmap_a = 0
            then bitmap_a\<lparr>behind_wait := behind_wait bitmap_a + 1\<rparr>
            else bitmap_a)
      else bitmap)"

definition bitmap_endwrite :: "bitmap \<Rightarrow> nat \<Rightarrow> nat \<Rightarrow> bool \<Rightarrow> bool \<Rightarrow> bitmap" where
  "bitmap_endwrite bitmap offset sectors success behind =
     endwrite_loop (endwrite_behind bitmap behind) offset sectors success"

subsection \<open>bitmap_set_memory_bits\<close>

definition bitmap_set_memory_bits :: "bitmap \<Rightarrow> nat \<Rightarrow> bool \<Rightarrow> bool \<Rightarrow> bitmap" where
  "bitmap_set_memory_bits bitmap offset needed kzalloc_ok =
     (case bitmap_get_counter (counts bitmap) offset True kzalloc_ok of
        (None, secs, c) \<Rightarrow> bitmap\<lparr>counts := c\<rparr>
      | (Some bmc, secs, c) \<Rightarrow>
          (let bitmap1 = bitmap\<lparr>counts := c\<rparr>
           in if deref c bmc = 0 then
                (let bitmap2 = bitmap1\<lparr>counts := assign c bmc
                                 (2 OR (if needed then NEEDED_MASK else 0))\<rparr>;
                     bitmap3 = bitmap2\<lparr>counts :=
                                 bitmap_count_page (counts bitmap2) offset 1\<rparr>;
                     bitmap4 = bitmap3\<lparr>counts :=
                                 bitmap_set_pending (counts bitmap3) offset\<rparr>
                 in bitmap4\<lparr>allclean := False\<rparr>)
              else bitmap1))"

subsection \<open>bitmap_dirty_bits\<close>

text \<open>
  The loop \<^verbatim>\<open>for (chunk = s; chunk <= e; chunk++)\<close> of \<^verbatim>\<open>bitmap_dirty_bits\<close>, from
  \<open>chunk\<close>; \<open>kz i\<close> is the answer of \<^verbatim>\<open>kzalloc\<close> in turn \<open>i\<close>. Chunk numbers are
  natural numbers here, so \<open>e\<close> is taken below the largest \<^verbatim>\<open>unsigned long\<close>.
\<close>

function bitmap_dirty_bits :: "bitmap \<Rightarrow> nat \<Rightarrow> nat \<Rightarrow> (nat \<Rightarrow> bool) \<Rightarrow> bitmap" where
  "bitmap_dirty_bits bitmap chunk e kz =
     (if chunk \<le> e then
        (let sec = push_bit (chunkshift (counts bitmap)) chunk;
             bitmap1 = bitmap_set_memory_bits bitmap sec True (kz 0);
             bitmap2 = bitmap_file_set_bit bitmap1 sec;
             bitmap3 = (if sec < md_recovery_cp (mddev bitmap2)
                        then bitmap2\<lparr>mddev := (mddev bitmap2)\<lparr>md_recovery_cp := sec\<rparr>\<rparr>
                        else bitmap2)
         in bitmap_dirty_bits bitmap3 (chunk + 1) e (\<lambda>i. kz (Suc i)))
      else bitmap)"
  by pat_completeness auto
termination
  by (relation "measure (\<lambda>(b, chunk, e, kz). e + 1 - chunk)") auto

declare bitmap_dirty_bits.simps [simp del]

subsection \<open>bitmap_start_sync, bitmap_end_sync and bitmap_close_sync\<close>

text \<open>
  \<^verbatim>\<open>__bitmap_start_sync\<close> (for a bitmap that is not NULL): the return value, the
  number of sectors reported in \<^verbatim>\<open>*blocks\<close>, and the state.
\<close>

definition bitmap_start_sync_step :: "bitmap \<Rightarrow> nat \<Rightarrow> bool \<Rightarrow> bool \<times> nat \<times> bitmap" where
  "bitmap_start_sync_step bitmap offset degraded =
     (case bitmap_get_counter (counts bitmap) offset False False of
        (None, blocks, c) \<Rightarrow> (False, blocks, bitmap\<lparr>counts := c\<rparr>)
      | (Some bmc, blocks, c) \<Rightarrow>
          (let bitmap1 = bitmap\<lparr>counts := c\<rparr>
           in if RESYNC (deref c bmc) then (True, blocks, bitmap1)
              else if NEEDED (deref c bmc) then
                (True, blocks,
                 if \<not> degraded then
                   (let bitmap2 = bitmap1\<lparr>counts := assign c bmc (deref c bmc OR RESYNC_MASK)\<rparr>
                    in bitmap2\<lparr>counts := assign (counts bitmap2) bmc
                                   (deref (counts bitmap2) bmc AND NOT NEEDED_MASK)\<rparr>)
                 else bitmap1)
              else (False, blocks, bitmap1)))"

lemma bitmap_start_sync_step_blocks_pos:
  "bitmap_start_sync_step b offset degraded = (rv, blocks, b') \<Longrightarrow> 0 < blocks"
  by (auto simp: bitmap_start_sync_step_def Let_def split: prod.splits option.splits if_splits
      dest: get_counter_blocks_pos)

text \<open>
  The loop of \<^verbatim>\<open>bitmap_start_sync\<close>, which goes on until \<^verbatim>\<open>PAGE_SIZE >> 9\<close> sectors
  are covered, and the function itself.
\<close>

function start_sync_loop ::
  "bitmap \<Rightarrow> nat \<Rightarrow> bool \<Rightarrow> nat \<Rightarrow> bool \<Rightarrow> bool \<times> nat \<times> bitmap" where
  "start_sync_loop bitmap offset degraded blocks rv =
     (if blocks < drop_bit 9 PAGE_SIZE then
        (case bitmap_start_sync_step bitmap offset degraded of
           (rv1, blocks1, b) \<Rightarrow>
             start_sync_loop b (offset + blocks1) degraded (blocks + blocks1) (rv \<or> rv1))
      else (rv, blocks, bitmap))"
  by pat_completeness auto
termination
proof (relation "measure (\<lambda>(b, offset, degraded, blocks, rv). drop_bit 9 PAGE_SIZE - blocks)",
    goal_cases)
  case 1
  show ?case by simp
next
  case 2
  then show ?case by (auto dest: bitmap_start_sync_step_blocks_pos [OF sym])
qed

declare start_sync_loop.simps [simp del]

definition bitmap_start_sync :: "bitmap \<Rightarrow> nat \<Rightarrow> bool \<Rightarrow> bool \<times> nat \<times> bitmap" where
  "bitmap_start_sync bitmap offset degraded = start_sync_loop bitmap offset degraded 0 False"

text \<open>\<^verbatim>\<open>bitmap_end_sync\<close> (for a bitmap that is not NULL): \<^verbatim>\<open>*blocks\<close> and the state.\<close>

definition bitmap_end_sync :: "bitmap \<Rightarrow> nat \<Rightarrow> bool \<Rightarrow> nat \<times> bitmap" where
  "bitmap_end_sync bitmap offset aborted =
     (case bitmap_get_counter (counts bitmap) offset False False of
        (None, blocks, c) \<Rightarrow> (blocks, bitmap\<lparr>counts := c\<rparr>)
      | (Some bmc, blocks, c) \<Rightarrow>
          (let bitmap1 = bitmap\<lparr>counts := c\<rparr>
           in if RESYNC (deref c bmc) then
                (let bitmap2 = bitmap1\<lparr>counts := assign c bmc
                                 (deref c bmc AND NOT RESYNC_MASK)\<rparr>
                 in if \<not> NEEDED (deref (counts bitmap2) bmc) \<and> aborted
                    then (blocks, bitmap2\<lparr>counts := assign (counts bitmap2) bmc
                                    (deref (counts bitmap2) bmc OR NEEDED_MASK)\<rparr>)
                    else if deref (counts bitmap2) bmc \<le> 2
                    then (blocks, bitmap2\<lparr>counts := bitmap_set_pending (counts bitmap2) offset,
                                           allclean := False\<rparr>)
                    else (blocks, bitmap2))
              else (blocks, bitmap1)))"

lemma bitmap_end_sync_advance:
  assumes "bitmap_end_sync b offset aborted = (blocks, b')"
  shows "0 < blocks" "mddev b' = mddev b"
proof -
  obtain r nb c where g: "bitmap_get_counter (counts b) offset False False = (r, nb, c)"
    by (cases "bitmap_get_counter (counts b) offset False False") auto
  from get_counter_blocks_pos [OF g] assms g show "0 < blocks"
    by (auto simp: bitmap_end_sync_def Let_def split: option.splits if_splits)
  from assms g show "mddev b' = mddev b"
    by (auto simp: bitmap_end_sync_def Let_def split: option.splits if_splits)
qed

text \<open>The loop of \<^verbatim>\<open>bitmap_close_sync\<close>, from \<open>sector\<close>.\<close>

function close_sync_loop :: "bitmap \<Rightarrow> nat \<Rightarrow> bitmap" where
  "close_sync_loop bitmap sector =
     (if sector < md_resync_max_sectors (mddev bitmap) then
        (case bitmap_end_sync bitmap sector False of
           (blocks, b) \<Rightarrow> close_sync_loop b (sector + blocks))
      else bitmap)"
  by pat_completeness auto
termination
proof (relation "measure (\<lambda>(b, sector). md_resync_max_sectors (mddev b) - sector)", goal_cases)
  case 1
  show ?case by simp
next
  case 2
  from bitmap_end_sync_advance [OF "2"(2) [symmetric]] "2"(1) show ?case by simp
qed

declare close_sync_loop.simps [simp del]

definition bitmap_close_sync :: "bitmap \<Rightarrow> bitmap" where
  "bitmap_close_sync bitmap = close_sync_loop bitmap 0"

section \<open>Reading the counter map\<close>

text \<open>
  Names for what \<^verbatim>\<open>bitmap_get_counter\<close> computes from a sector number: the page
  slot, the byte offset in its page, the pointer it returns for a slot that is
  allocated or hijacked, and \<^verbatim>\<open>*blocks\<close>. \<open>counter_value\<close> is the counter that
  covers a sector, as a lookup without \<^verbatim>\<open>create\<close> finds it: 0 where the lookup
  returns NULL, since a page that is not there stands for counters that are all 0.
\<close>

definition counter_value :: "bitmap_counts \<Rightarrow> nat \<Rightarrow> bitmap_counter_t" where
  "counter_value c offset =
     (case bitmap_get_counter c offset False False of
        (None, blocks, c') \<Rightarrow> 0
      | (Some bmc, blocks, c') \<Rightarrow> deref c' bmc)"

definition page_of :: "bitmap_counts \<Rightarrow> nat \<Rightarrow> nat" where
  "page_of c offset = drop_bit PAGE_COUNTER_SHIFT (drop_bit (chunkshift c) offset)"

definition pageoff_of :: "bitmap_counts \<Rightarrow> nat \<Rightarrow> nat" where
  "pageoff_of c offset =
     push_bit COUNTER_BYTE_SHIFT (drop_bit (chunkshift c) offset AND PAGE_COUNTER_MASK)"

definition bmc_of :: "bitmap_counts \<Rightarrow> nat \<Rightarrow> bmc_ptr" where
  "bmc_of c offset =
     (if hijacked (bp c (page_of c offset))
      then Inline_counter (page_of c offset)
             (if pageoff_of c offset > PAGE_COUNTER_MASK then 1 else 0)
      else Page_counter (page_of c offset) (pageoff_of c offset))"

definition blocks_of :: "bitmap_counts \<Rightarrow> nat \<Rightarrow> nat" where
  "blocks_of c offset =
     get_counter_csize c (page_of c offset) - offset mod get_counter_csize c (page_of c offset)"

lemma checkpage_chunkshift:
  "bitmap_checkpage c p cr ok = Inr c' \<Longrightarrow> chunkshift c' = chunkshift c"
  by (auto simp: bitmap_checkpage_def split: if_splits)

lemma bitmap_get_counter_alt:
  "bitmap_get_counter c offset create ok =
     (case bitmap_checkpage c (page_of c offset) create ok of
        Inl e \<Rightarrow> (None, blocks_of c offset, c)
      | Inr c' \<Rightarrow> (Some (bmc_of c' offset), blocks_of c' offset, c'))"
proof (cases "bitmap_checkpage c (page_of c offset) create ok")
  case (Inl e)
  then show ?thesis
    unfolding bitmap_get_counter_def Let_def page_of_def blocks_of_def
    by (simp only: get_counter_csize_mask sum.case)
next
  case (Inr c')
  have cs: "chunkshift c' = chunkshift c" using Inr by (rule checkpage_chunkshift)
  have m: "\<And>x p. x AND (get_counter_csize c' p - Suc 0) = x mod get_counter_csize c' p"
    using get_counter_csize_mask by simp
  show ?thesis
    using Inr cs
    by (simp add: bitmap_get_counter_def Let_def page_of_def blocks_of_def bmc_of_def
          pageoff_of_def m del: drop_bit_drop_bit)
qed

lemma blocks_of_pos: "0 < blocks_of c offset"
  using get_counter_csize_pos [of c "page_of c offset"]
  by (simp add: blocks_of_def)

lemma checkpage_existing:
  "page < pages c \<Longrightarrow> hijacked (bp c page) \<or> map_ptr (bp c page) \<noteq> None \<Longrightarrow>
   bitmap_checkpage c page create ok = Inr c"
  by (auto simp: bitmap_checkpage_def)

lemma checkpage_nocreate:
  "bitmap_checkpage c page False ok = Inr c' \<Longrightarrow>
   c' = c \<and> page < pages c \<and> (hijacked (bp c page) \<or> map_ptr (bp c page) \<noteq> None)"
  by (auto simp: bitmap_checkpage_def split: if_splits)

lemma get_counter_nocreate:
  "bitmap_get_counter c offset False ok = (r, blocks, c') \<Longrightarrow> c' = c"
  by (auto simp: bitmap_get_counter_alt split: sum.splits dest: checkpage_nocreate)

lemma get_counter_existing:
  assumes "page_of c offset < pages c"
    and "hijacked (bp c (page_of c offset)) \<or> map_ptr (bp c (page_of c offset)) \<noteq> None"
  shows "bitmap_get_counter c offset create ok = (Some (bmc_of c offset), blocks_of c offset, c)"
  using assms
  by (simp add: bitmap_get_counter_alt checkpage_existing)





lemma page_of_upd [simp]:
  "page_of (c\<lparr>bp := f\<rparr>) = page_of c"
  "page_of (c\<lparr>missing_pages := m\<rparr>) = page_of c"
  by (simp_all add: page_of_def fun_eq_iff)

lemma pageoff_of_upd [simp]:
  "pageoff_of (c\<lparr>bp := f\<rparr>) = pageoff_of c"
  "pageoff_of (c\<lparr>missing_pages := m\<rparr>) = pageoff_of c"
  by (simp_all add: pageoff_of_def fun_eq_iff)

lemma count_page_alt:
  "bitmap_count_page c offset inc =
     bitmap_checkfree
       (c\<lparr>bp := (bp c)(page_of c offset := (bp c (page_of c offset))
          \<lparr>count := count (bp c (page_of c offset)) + word_of_int inc\<rparr>)\<rparr>) (page_of c offset)"
  unfolding bitmap_count_page_def Let_def page_of_def ..

lemma set_pending_alt:
  "bitmap_set_pending c offset =
     (if \<not> pending (bp c (page_of c offset))
      then c\<lparr>bp := (bp c)(page_of c offset := (bp c (page_of c offset))\<lparr>pending := True\<rparr>)\<rparr>
      else c)"
  unfolding bitmap_set_pending_def Let_def page_of_def ..

lemma counter_value_alt:
  "counter_value c offset =
     (if page_of c offset < pages c \<and>
         (hijacked (bp c (page_of c offset)) \<or> map_ptr (bp c (page_of c offset)) \<noteq> None)
      then deref c (bmc_of c offset) else 0)"
  by (auto simp: counter_value_def bitmap_get_counter_alt bitmap_checkpage_def)



definition slot_ready :: "bitmap_counts \<Rightarrow> nat \<Rightarrow> bool" where
  "slot_ready c p = (p < pages c \<and> (hijacked (bp c p) \<or> map_ptr (bp c p) \<noteq> None))"

lemma assign_fields [simp]:
  "pages (assign c x v) = pages c"
  "chunkshift (assign c x v) = chunkshift c"
  "chunks (assign c x v) = chunks c"
  "missing_pages (assign c x v) = missing_pages c"
  "hijacked (bp (assign c x v) p) = hijacked (bp c p)"
  "pending (bp (assign c x v) p) = pending (bp c p)"
  "count (bp (assign c x v) p) = count (bp c p)"
  "(map_ptr (bp (assign c x v) p) = None) = (map_ptr (bp c p) = None)"
  by (cases x; simp split: option.splits)+

lemma assign_derived [simp]:
  "page_of (assign c x v) = page_of c"
  "pageoff_of (assign c x v) = pageoff_of c"
  "bmc_of (assign c x v) = bmc_of c"
  "slot_ready (assign c x v) = slot_ready c"
  "get_counter_csize (assign c x v) = get_counter_csize c"
  by (simp_all add: page_of_def pageoff_of_def bmc_of_def slot_ready_def get_counter_csize_def
      fun_eq_iff)

lemma deref_assign_bmc_of:
  "slot_ready c (page_of c offset) \<Longrightarrow>
   deref (assign c (bmc_of c offset) v) (bmc_of c offset) = v"
  by (auto simp: slot_ready_def bmc_of_def)

lemma set_pending_fields [simp]:
  "pages (bitmap_set_pending c offset) = pages c"
  "chunkshift (bitmap_set_pending c offset) = chunkshift c"
  "chunks (bitmap_set_pending c offset) = chunks c"
  "missing_pages (bitmap_set_pending c offset) = missing_pages c"
  "hijacked (bp (bitmap_set_pending c offset) p) = hijacked (bp c p)"
  "count (bp (bitmap_set_pending c offset) p) = count (bp c p)"
  "map_ptr (bp (bitmap_set_pending c offset) p) = map_ptr (bp c p)"
  "map_ctr (bp (bitmap_set_pending c offset) p) = map_ctr (bp c p)"
  "pending (bp (bitmap_set_pending c offset) p) = (p = page_of c offset \<or> pending (bp c p))"
  by (auto simp: set_pending_alt)

lemma set_pending_derived [simp]:
  "page_of (bitmap_set_pending c offset) = page_of c"
  "pageoff_of (bitmap_set_pending c offset) = pageoff_of c"
  "bmc_of (bitmap_set_pending c offset) = bmc_of c"
  "slot_ready (bitmap_set_pending c offset) = slot_ready c"
  "get_counter_csize (bitmap_set_pending c offset) = get_counter_csize c"
  "deref (bitmap_set_pending c offset) x = deref c x"
  by (cases x; simp add: page_of_def pageoff_of_def bmc_of_def slot_ready_def get_counter_csize_def
      fun_eq_iff)+


lemma count_page_busy:
  assumes "count (bp c (page_of c offset)) + word_of_int inc \<noteq> 0"
  shows "bitmap_count_page c offset inc =
     c\<lparr>bp := (bp c)(page_of c offset := (bp c (page_of c offset))
          \<lparr>count := count (bp c (page_of c offset)) + word_of_int inc\<rparr>)\<rparr>"
  using assms by (simp add: count_page_alt bitmap_checkfree_def)

lemma count_page_busy_fields:
  assumes "count (bp c (page_of c offset)) + word_of_int inc \<noteq> 0"
  shows "pages (bitmap_count_page c offset inc) = pages c"
    "chunkshift (bitmap_count_page c offset inc) = chunkshift c"
    "chunks (bitmap_count_page c offset inc) = chunks c"
    "missing_pages (bitmap_count_page c offset inc) = missing_pages c"
    "hijacked (bp (bitmap_count_page c offset inc) p) = hijacked (bp c p)"
    "pending (bp (bitmap_count_page c offset inc) p) = pending (bp c p)"
    "map_ptr (bp (bitmap_count_page c offset inc) p) = map_ptr (bp c p)"
    "map_ctr (bp (bitmap_count_page c offset inc) p) = map_ctr (bp c p)"
    "count (bp (bitmap_count_page c offset inc) p) =
       (if p = page_of c offset then count (bp c p) + word_of_int inc else count (bp c p))"
  by (simp_all add: count_page_busy [OF assms])

lemma count_page_busy_derived:
  assumes "count (bp c (page_of c offset)) + word_of_int inc \<noteq> 0"
  shows "page_of (bitmap_count_page c offset inc) = page_of c"
    "pageoff_of (bitmap_count_page c offset inc) = pageoff_of c"
    "bmc_of (bitmap_count_page c offset inc) = bmc_of c"
    "slot_ready (bitmap_count_page c offset inc) = slot_ready c"
    "get_counter_csize (bitmap_count_page c offset inc) = get_counter_csize c"
    "deref (bitmap_count_page c offset inc) x = deref c x"
proof -
  note e = count_page_busy [OF assms]
  show "page_of (bitmap_count_page c offset inc) = page_of c"
    "pageoff_of (bitmap_count_page c offset inc) = pageoff_of c"
    by (simp_all add: e)
  show "bmc_of (bitmap_count_page c offset inc) = bmc_of c"
    by (simp add: e bmc_of_def fun_eq_iff)
  show "slot_ready (bitmap_count_page c offset inc) = slot_ready c"
    by (auto simp: e slot_ready_def fun_eq_iff)
  show "get_counter_csize (bitmap_count_page c offset inc) = get_counter_csize c"
    by (auto simp: e get_counter_csize_def fun_eq_iff)
  show "deref (bitmap_count_page c offset inc) x = deref c x"
    by (cases x) (simp_all add: e)
qed

text \<open>The slot that checkpage leaves when it had to create it.\<close>

definition created_slot :: "bitmap_page \<Rightarrow> bool \<Rightarrow> bitmap_page" where
  "created_slot s ok =
     (if ok then s\<lparr>map_ptr := Some (\<lambda>pageoff. 0)\<rparr>
      else s\<lparr>map_ctr := (\<lambda>hi. 0), hijacked := True\<rparr>)"

lemma checkpage_create:
  assumes "page < pages c" "\<not> slot_ready c page"
  shows "bitmap_checkpage c page True ok =
     Inr (c\<lparr>bp := (bp c)(page := created_slot (bp c page) ok),
            missing_pages := (if ok then missing_pages c - 1 else missing_pages c)\<rparr>)"
  using assms by (auto simp: bitmap_checkpage_def slot_ready_def created_slot_def)

lemma get_counter_ready:
  assumes "slot_ready c (page_of c offset)"
  shows "bitmap_get_counter c offset create ok = (Some (bmc_of c offset), blocks_of c offset, c)"
  using assms get_counter_existing [of c offset create ok] by (simp add: slot_ready_def)

lemma get_counter_out_of_range:
  assumes "pages c \<le> page_of c offset"
  shows "bitmap_get_counter c offset create ok = (None, blocks_of c offset, c)"
  using assms by (simp add: bitmap_get_counter_alt bitmap_checkpage_def)

lemma get_counter_absent_nocreate:
  assumes "\<not> slot_ready c (page_of c offset)"
  shows "bitmap_get_counter c offset False ok = (None, blocks_of c offset, c)"
  using assms by (auto simp: bitmap_get_counter_alt bitmap_checkpage_def slot_ready_def)

definition after_create :: "bitmap_counts \<Rightarrow> nat \<Rightarrow> bool \<Rightarrow> bitmap_counts" where
  "after_create c page ok =
     c\<lparr>bp := (bp c)(page := created_slot (bp c page) ok),
       missing_pages := (if ok then missing_pages c - 1 else missing_pages c)\<rparr>"

lemma get_counter_create:
  assumes "page_of c offset < pages c" "\<not> slot_ready c (page_of c offset)"
  shows "bitmap_get_counter c offset True ok =
     (Some (bmc_of (after_create c (page_of c offset) ok) offset),
      blocks_of (after_create c (page_of c offset) ok) offset,
      after_create c (page_of c offset) ok)"
  using assms by (simp add: bitmap_get_counter_alt checkpage_create after_create_def)

lemma after_create_fields [simp]:
  "pages (after_create c page ok) = pages c"
  "chunkshift (after_create c page ok) = chunkshift c"
  "chunks (after_create c page ok) = chunks c"
  "pending (bp (after_create c page ok) p) = pending (bp c p)"
  "count (bp (after_create c page ok) p) = count (bp c p)"
  "page_of (after_create c page ok) = page_of c"
  "pageoff_of (after_create c page ok) = pageoff_of c"
  by (simp_all add: after_create_def created_slot_def)

lemma after_create_ready:
  "page < pages c \<Longrightarrow> slot_ready (after_create c page ok) page"
  by (simp add: after_create_def created_slot_def slot_ready_def)

lemma after_create_deref:
  "\<not> slot_ready c (page_of c offset) \<Longrightarrow> page_of c offset < pages c \<Longrightarrow>
   deref (after_create c (page_of c offset) ok) (bmc_of (after_create c (page_of c offset) ok) offset) = 0"
  by (simp add: after_create_def created_slot_def slot_ready_def bmc_of_def)


lemma counter_value_ready:
  "counter_value c offset =
     (if slot_ready c (page_of c offset) then deref c (bmc_of c offset) else 0)"
  by (simp add: counter_value_alt slot_ready_def)






section \<open>Arithmetic of a counter\<close>

lemma COUNTER_unat: "unat (COUNTER v) = unat v mod 16384"
proof -
  have "unat (COUNTER v) = unat (take_bit 14 v)"
    by (simp add: COUNTER_def take_bit_eq_mask mask_eq_exp_minus_1)
  also have "\<dots> = take_bit 14 (unat v)" by (rule unsigned_take_bit_eq)
  also have "\<dots> = unat v mod 16384" by (simp add: take_bit_eq_mod)
  finally show ?thesis .
qed

lemma unat_lt_65536: "unat (v::16 word) < 65536"
  using unsigned_less [of v] by simp

lemma bit15_unat: "bit (v::16 word) 15 = (32768 \<le> unat v)"
proof -
  have "bit v 15 = bit (unat v) 15" by (simp add: bit_unsigned_iff)
  also have "\<dots> = odd (unat v div 32768)" by (simp add: bit_iff_odd)
  also have "\<dots> = (32768 \<le> unat v)"
  proof
    assume "odd (unat v div 32768)"
    then have "unat v div 32768 \<noteq> 0" by (metis even_zero)
    then show "32768 \<le> unat v" by simp
  next
    assume a: "32768 \<le> unat v"
    have "unat v div 32768 = 1"
      using a unat_lt_65536 [of v] by simp
    then show "odd (unat v div 32768)" by simp
  qed
  finally show ?thesis .
qed

lemma bit14_unat: "bit (v::16 word) 14 = odd (unat v div 16384)"
proof -
  have "bit v 14 = bit (unat v) 14" by (simp add: bit_unsigned_iff)
  then show ?thesis by (simp add: bit_iff_odd)
qed

lemma NEEDED_bit: "NEEDED v = bit v 15"
  using and_exp_eq_0_iff_not_bit [of v 15] by (simp add: NEEDED_def NEEDED_MASK_def)

lemma RESYNC_bit: "RESYNC v = bit v 14"
  using and_exp_eq_0_iff_not_bit [of v 14] by (simp add: RESYNC_def RESYNC_MASK_def)

lemma NEEDED_unat: "NEEDED v = (32768 \<le> unat v)"
  by (simp add: NEEDED_bit bit15_unat)

lemma RESYNC_unat: "RESYNC v = odd (unat v div 16384)"
  by (simp add: RESYNC_bit bit14_unat)

lemma COUNTER_MAX_unat: "unat COUNTER_MAX = 16383"
  by (simp add: COUNTER_MAX_def)

lemma COUNTER_le_MAX: "COUNTER v \<le> COUNTER_MAX"
  unfolding COUNTER_def COUNTER_MAX_def by (rule word_and_le1)


lemma counter_inc:
  assumes "COUNTER v < COUNTER_MAX"
  shows "COUNTER (v + 1) = COUNTER v + 1" "NEEDED (v + 1) = NEEDED v" "RESYNC (v + 1) = RESYNC v"
    "COUNTER (v + 1) \<le> COUNTER_MAX"
proof -
  define x where "x = unat v"
  have lt: "x mod 16384 < 16383"
    using assms by (simp add: word_less_nat_alt COUNTER_unat COUNTER_MAX_unat x_def)
  have b: "x < 65536" unfolding x_def by (rule unat_lt_65536)
  have "x \<noteq> 65535" using lt by auto
  then have "x + 1 < 65536" using b by simp
  then have u: "unat (v + 1) = x + 1"
    unfolding x_def by (simp add: unat_word_ariths)
  have m0: "Suc x mod 16384 = Suc (x mod 16384)" using lt by (simp add: mod_Suc)
  have d0: "Suc x div 16384 = x div 16384" using m0 by (simp add: div_Suc)
  have m: "(x + 1) mod 16384 = x mod 16384 + 1" using m0 by simp
  have d: "(x + 1) div 16384 = x div 16384" using d0 by simp
  have c1: "unat (COUNTER v + 1) = x mod 16384 + 1"
    using lt by (simp add: unat_word_ariths COUNTER_unat x_def [symmetric])
  have "unat (COUNTER (v + 1)) = (x + 1) mod 16384" by (simp only: COUNTER_unat u)
  also have "\<dots> = x mod 16384 + 1" by (rule m)
  also have "\<dots> = unat (COUNTER v + 1)" by (rule c1 [symmetric])
  finally show "COUNTER (v + 1) = COUNTER v + 1" by (simp only: word_unat_eq_iff)
  have "(32768 \<le> x + 1) = (32768 \<le> x)"
  proof -
    have "x \<noteq> 32767" using lt by auto
    then show ?thesis by auto
  qed
  then show "NEEDED (v + 1) = NEEDED v" by (simp add: NEEDED_unat u x_def [symmetric])
  show "RESYNC (v + 1) = RESYNC v"
    using d by (simp add: RESYNC_unat u x_def [symmetric])
  show "COUNTER (v + 1) \<le> COUNTER_MAX"
    using lt m by (simp add: word_le_nat_alt COUNTER_unat COUNTER_MAX_unat u)
qed


lemma counter_dec:
  assumes "COUNTER v \<noteq> 0"
  shows "COUNTER (v - 1) = COUNTER v - 1" "NEEDED (v - 1) = NEEDED v" "RESYNC (v - 1) = RESYNC v"
    "COUNTER (v - 1) < COUNTER v"
proof -
  define x where "x = unat v"
  have nz: "x mod 16384 \<noteq> 0"
    using assms by (simp add: word_unat_eq_iff COUNTER_unat x_def)
  then obtain y where y: "x = Suc y" by (cases x) auto
  have vnz: "v \<noteq> 0" using y by (auto simp: x_def)
  have u: "unat (v - 1) = y"
    using vnz y by (simp add: unat_minus_one x_def [symmetric])
  have ylt: "y mod 16384 \<noteq> 16383" using nz y by (auto simp: mod_Suc)
  have m: "x mod 16384 = Suc (y mod 16384)" using ylt y by (simp add: mod_Suc)
  have d: "x div 16384 = y div 16384" using m y by (simp add: div_Suc)
  have c1: "unat (COUNTER v - 1) = y mod 16384"
    using assms m by (simp add: unat_minus_one COUNTER_unat x_def [symmetric])
  have "unat (COUNTER (v - 1)) = y mod 16384" by (simp only: COUNTER_unat u)
  also have "\<dots> = unat (COUNTER v - 1)" by (rule c1 [symmetric])
  finally show "COUNTER (v - 1) = COUNTER v - 1" by (simp only: word_unat_eq_iff)
  have "(32768 \<le> y) = (32768 \<le> x)"
  proof -
    have "x \<noteq> 32768" using nz by auto
    then show ?thesis using y by auto
  qed
  then show "NEEDED (v - 1) = NEEDED v" by (simp add: NEEDED_unat u x_def [symmetric])
  show "RESYNC (v - 1) = RESYNC v"
    using d by (simp add: RESYNC_unat u x_def [symmetric])
  show "COUNTER (v - 1) < COUNTER v"
    using m by (simp add: word_less_nat_alt COUNTER_unat u x_def [symmetric])
qed

lemma or_needed:
  "NEEDED (v OR NEEDED_MASK)" "COUNTER (v OR NEEDED_MASK) = COUNTER v"
  "RESYNC (v OR NEEDED_MASK) = RESYNC v"
proof -
  have e: "NEEDED_MASK = 2 ^ 15" by (simp add: NEEDED_MASK_def)
  show "NEEDED (v OR NEEDED_MASK)"
    by (simp add: NEEDED_bit e bit_or_iff bit_exp_iff)
  show "RESYNC (v OR NEEDED_MASK) = RESYNC v"
    by (simp add: RESYNC_bit e bit_or_iff bit_exp_iff)
  have "take_bit 14 (v OR 2 ^ 15) = take_bit 14 v"
    by (simp add: bit_eq_iff bit_take_bit_iff bit_or_iff bit_exp_iff)
  then show "COUNTER (v OR NEEDED_MASK) = COUNTER v"
    by (simp add: COUNTER_def e take_bit_eq_mask mask_eq_exp_minus_1)
qed

lemma or_needed_idem: "NEEDED v \<Longrightarrow> v OR NEEDED_MASK = v"
proof -
  assume "NEEDED v"
  then have b: "bit v 15" by (simp add: NEEDED_bit)
  have e: "NEEDED_MASK = 2 ^ 15" by (simp add: NEEDED_MASK_def)
  have "v OR 2 ^ 15 = v"
  proof (rule bit_eqI)
    fix n
    show "bit (v OR 2 ^ 15) n = bit v n"
      unfolding bit_or_iff bit_exp_iff using b by auto
  qed
  then show ?thesis unfolding e .
qed


section \<open>One pass of startwrite and of endwrite\<close>

definition ptr_ok :: "bitmap_counts \<Rightarrow> bmc_ptr \<Rightarrow> bool" where
  "ptr_ok c x = (case x of Inline_counter p hi \<Rightarrow> True
                 | Page_counter p pageoff \<Rightarrow> map_ptr (bp c p) \<noteq> None)"

lemma deref_assign_same [simp]: "ptr_ok c x \<Longrightarrow> deref (assign c x v) x = v"
  by (cases x) (auto simp: ptr_ok_def)

lemma ptr_ok_assign [simp]: "ptr_ok (assign c x v) y = ptr_ok c y"
  by (cases y) (simp_all add: ptr_ok_def)

lemma ptr_ok_set_pending [simp]: "ptr_ok (bitmap_set_pending c offset) y = ptr_ok c y"
  by (cases y) (simp_all add: ptr_ok_def)

lemma ptr_ok_bmc_of: "slot_ready c (page_of c offset) \<Longrightarrow> ptr_ok c (bmc_of c offset)"
  by (auto simp: ptr_ok_def bmc_of_def slot_ready_def)

lemma ptr_ok_count_page_busy:
  assumes "count (bp c (page_of c offset)) + word_of_int inc \<noteq> 0"
  shows "ptr_ok (bitmap_count_page c offset inc) y = ptr_ok c y"
  by (cases y) (simp_all add: ptr_ok_def count_page_busy_fields [OF assms])

lemma checkpage_Inr:
  assumes "bitmap_checkpage c0 p create ok = Inr c"
  shows "slot_ready c p" "pages c = pages c0" "chunkshift c = chunkshift c0"
    "chunks c = chunks c0" "count (bp c q) = count (bp c0 q)"
    "pending (bp c q) = pending (bp c0 q)"
  using assms
  by (auto simp: bitmap_checkpage_def slot_ready_def split: if_splits)

lemma page_of_cong: "chunkshift c = chunkshift c0 \<Longrightarrow> page_of c = page_of c0"
  by (simp add: page_of_def fun_eq_iff)

lemma get_counter_Some:
  assumes "bitmap_get_counter c0 offset create ok = (Some bmc, blocks, c)"
  shows "bmc = bmc_of c offset" "blocks = blocks_of c offset"
    "slot_ready c (page_of c offset)" "ptr_ok c bmc"
    "page_of c = page_of c0" "pages c = pages c0" "chunkshift c = chunkshift c0"
    "chunks c = chunks c0" "count (bp c q) = count (bp c0 q)"
    "pending (bp c q) = pending (bp c0 q)"
proof -
  from assms have cp: "bitmap_checkpage c0 (page_of c0 offset) create ok = Inr c"
    and b: "bmc = bmc_of c offset" "blocks = blocks_of c offset"
    by (auto simp: bitmap_get_counter_alt split: sum.splits)
  note f = checkpage_Inr [OF cp]
  show "bmc = bmc_of c offset" "blocks = blocks_of c offset" by fact+
  show p: "page_of c = page_of c0" using f(3) by (rule page_of_cong)
  show r: "slot_ready c (page_of c offset)" using f(1) by (simp add: p)
  show "ptr_ok c bmc" unfolding b using r by (rule ptr_ok_bmc_of)
  show "pages c = pages c0" "chunkshift c = chunkshift c0" "chunks c = chunks c0"
    "count (bp c q) = count (bp c0 q)" "pending (bp c q) = pending (bp c0 q)"
    by (rule f)+
qed

lemma counts_file_set_bit [simp]: "counts (bitmap_file_set_bit b block) = counts b"
  by (simp add: bitmap_file_set_bit_def set_page_attr_def page_set_bit_def Let_def
      split: option.splits)

lemma counts_file_clear_bit [simp]: "counts (bitmap_file_clear_bit b block) = counts b"
  by (simp add: bitmap_file_clear_bit_def set_page_attr_def page_set_bit_def Let_def
      split: option.splits)

text \<open>The bit of a chunk in the pages of the bit file; False where the file has no page for it.\<close>

definition file_bit :: "bitmap \<Rightarrow> nat \<Rightarrow> bool" where
  "file_bit b chunk =
     (case filemap_get_page (storage b) chunk of
        None \<Rightarrow> False
      | Some page \<Rightarrow>
          (case filemap (storage b) of
             None \<Rightarrow> False
           | Some fm \<Rightarrow> fm page (file_page_offset (storage b) chunk)))"

lemma filemap_get_page_upd:
  "filemap_get_page (s\<lparr>filemap := x, filemap_attr := y\<rparr>) = filemap_get_page s"
  "file_page_offset (s\<lparr>filemap := x, filemap_attr := y\<rparr>) = file_page_offset s"
  by (simp_all add: filemap_get_page_def file_page_index_def file_page_offset_def fun_eq_iff)

lemma file_set_bit_effect:
  assumes pg: "filemap_get_page (storage b) (drop_bit (chunkshift (counts b)) block) = Some page"
    and fm: "filemap (storage b) \<noteq> None"
  shows "file_bit (bitmap_file_set_bit b block) (drop_bit (chunkshift (counts b)) block)"
    and "test_page_attr (bitmap_file_set_bit b block) page BITMAP_PAGE_DIRTY"
proof -
  from fm obtain f where f: "filemap (storage b) = Some f" by blast
  define chunk where "chunk = drop_bit (chunkshift (counts b)) block"
  define n where "n = file_page_offset (storage b) chunk"
  have e: "bitmap_file_set_bit b block =
      b\<lparr>storage := (storage b)
          \<lparr>filemap := Some (f(page := (f page)(n := True))),
           filemap_attr := insert (push_bit 2 page + attr_num BITMAP_PAGE_DIRTY)
                             (filemap_attr (storage b))\<rparr>\<rparr>"
    using pg f
    by (simp add: bitmap_file_set_bit_def Let_def chunk_def [symmetric] n_def [symmetric]
        page_set_bit_def set_page_attr_def)
  have g: "filemap_get_page (storage (bitmap_file_set_bit b block)) chunk = Some page"
    using pg unfolding e chunk_def [symmetric]
    by (simp add: filemap_get_page_upd)
  have o: "file_page_offset (storage (bitmap_file_set_bit b block)) chunk = n"
    unfolding e n_def by (simp add: filemap_get_page_upd)
  have m: "filemap (storage (bitmap_file_set_bit b block))
             = Some (f(page := (f page)(n := True)))"
    unfolding e by simp
  show "file_bit (bitmap_file_set_bit b block) (drop_bit (chunkshift (counts b)) block)"
    unfolding chunk_def [symmetric] file_bit_def g o m by simp
  show "test_page_attr (bitmap_file_set_bit b block) page BITMAP_PAGE_DIRTY"
    unfolding e by (simp add: test_page_attr_def)
qed

lemma file_set_bit_counts_cong:
  "chunkshift c = chunkshift (counts b) \<Longrightarrow>
   storage (bitmap_file_set_bit (b\<lparr>counts := c\<rparr>) block) = storage (bitmap_file_set_bit b block)"
  by (simp add: bitmap_file_set_bit_def set_page_attr_def page_set_bit_def Let_def
      split: option.splits)


lemma file_bit_storage_cong: "storage b1 = storage b2 \<Longrightarrow> file_bit b1 = file_bit b2"
  by (auto simp: file_bit_def fun_eq_iff split: option.splits)

lemma test_page_attr_storage_cong:
  "storage b1 = storage b2 \<Longrightarrow> test_page_attr b1 = test_page_attr b2"
  by (simp add: test_page_attr_def fun_eq_iff)

lemma startwrite_step_zero:
  assumes g: "bitmap_get_counter (counts b) offset True ok = (Some bmc, blocks, c)"
    and z: "deref c bmc = 0"
    and w: "count (bp (counts b) (page_of (counts b) offset)) + 1 \<noteq> 0"
  shows "\<exists>b'. startwrite_step b offset ok = Step_done b' blocks \<and>
      storage b' = storage (bitmap_file_set_bit b offset) \<and>
      count (bp (counts b') (page_of (counts b) offset))
        = count (bp (counts b) (page_of (counts b) offset)) + 1 \<and>
      deref (counts b') bmc = 3"
proof -
  note gs = get_counter_Some [OF g]
  have busy: "count (bp c (page_of c offset)) + word_of_int 1 \<noteq> 0"
    using w by (simp add: gs(5) gs(9))
  note f = count_page_busy_fields [OF busy]
  have pk: "ptr_ok (bitmap_count_page c offset 1) bmc"
    using gs(4) by (simp add: ptr_ok_count_page_busy [OF busy])
  have nmax: "COUNTER (0::16 word) \<noteq> COUNTER_MAX"
    by (simp add: COUNTER_def COUNTER_MAX_def)
  define b' where "b' = (bitmap_file_set_bit (b\<lparr>counts := c\<rparr>) offset)
      \<lparr>counts := assign (assign (bitmap_count_page c offset 1) bmc 2) bmc 3\<rparr>"
  have "startwrite_step b offset ok = Step_done b' blocks"
    using z nmax pk by (simp add: startwrite_step_def g Let_def b'_def)
  moreover have "storage b' = storage (bitmap_file_set_bit b offset)"
    by (simp add: b'_def file_set_bit_counts_cong gs(7))
  moreover have "count (bp (counts b') (page_of (counts b) offset))
        = count (bp (counts b) (page_of (counts b) offset)) + 1"
    by (simp add: b'_def f gs(5) gs(9))
  moreover have "deref (counts b') bmc = 3"
    using pk by (simp add: b'_def)
  ultimately show ?thesis by blast
qed

lemma startwrite_step_one:
  assumes g: "bitmap_get_counter (counts b) offset True ok = (Some bmc, blocks, c)"
    and z: "deref c bmc = 1"
  shows "\<exists>b'. startwrite_step b offset ok = Step_done b' blocks \<and> deref (counts b') bmc = 3"
proof -
  note gs = get_counter_Some [OF g]
  have nmax: "COUNTER (1::16 word) \<noteq> COUNTER_MAX"
    by (simp add: COUNTER_def COUNTER_MAX_def)
  show ?thesis
    using z nmax gs(4) by (simp add: startwrite_step_def g Let_def)
qed

lemma startwrite_step_more:
  assumes g: "bitmap_get_counter (counts b) offset True ok = (Some bmc, blocks, c)"
    and z: "deref c bmc \<noteq> 0" "deref c bmc \<noteq> 1"
    and unsat: "COUNTER (deref c bmc) \<noteq> COUNTER_MAX"
  shows "\<exists>b'. startwrite_step b offset ok = Step_done b' blocks \<and>
           deref (counts b') bmc = deref c bmc + 1"
proof -
  note gs = get_counter_Some [OF g]
  show ?thesis
    using z unsat gs(4) by (simp add: startwrite_step_def g Let_def)
qed

lemma endwrite_step_value:
  fixes success :: bool
  assumes g: "bitmap_get_counter (counts b) offset False False = (Some bmc, blocks, c)"
  defines "v \<equiv> (if \<not> success \<and> \<not> NEEDED (deref c bmc) then deref c bmc OR NEEDED_MASK
                 else deref c bmc)"
  shows "\<exists>b'. endwrite_step b offset success = Step_done b' blocks \<and>
           deref (counts b') bmc = v - 1 \<and>
           pending (bp (counts b') (page_of (counts b) offset))
             = (v - 1 \<le> 2 \<or> pending (bp (counts b) (page_of (counts b) offset))) \<and>
           allclean b' = (\<not> v - 1 \<le> 2 \<and> allclean b) \<and>
           overflow_wait b' = (if COUNTER v = COUNTER_MAX then overflow_wait b + 1
                               else overflow_wait b)"
proof -
  note gs = get_counter_Some [OF g]
  have c: "c = counts b" using g by (rule get_counter_nocreate)
  have g': "bitmap_get_counter (counts b) offset False False = (Some bmc, blocks, counts b)"
    using g c by simp
  have pk: "ptr_ok (counts b) bmc" using gs(4) c by simp
  show ?thesis
  proof (cases "\<not> success \<and> \<not> NEEDED (deref (counts b) bmc)")
    case True
    then have v: "v = deref (counts b) bmc OR NEEDED_MASK" by (simp add: v_def c)
    show ?thesis
      using True pk unfolding v c
      by (cases "COUNTER (deref (counts b) bmc OR NEEDED_MASK) = COUNTER_MAX";
          cases "(deref (counts b) bmc OR NEEDED_MASK) - 1 \<le> 2")
         (simp_all add: endwrite_step_def g' Let_def)
  next
    case False
    then have v: "v = deref (counts b) bmc" by (auto simp: v_def c)
    show ?thesis
      using False pk unfolding v c
      by (cases "COUNTER (deref (counts b) bmc) = COUNTER_MAX";
          cases "deref (counts b) bmc - 1 \<le> 2")
         (auto simp add: endwrite_step_def g' Let_def)
  qed
qed


section \<open>The unplug barrier and the daemon\<close>

text \<open>
  What writing pages leaves alone: the counters, the array, the bits and the
  attributes of the file, its geometry. Flags are only added.
\<close>

definition io_frame :: "bitmap \<Rightarrow> bitmap \<Rightarrow> bool" where
  "io_frame b b' =
     (counts b' = counts b \<and> mddev b' = mddev b \<and> allclean b' = allclean b \<and>
      need_sync b' = need_sync b \<and> daemon_lastrun b' = daemon_lastrun b \<and>
      overflow_wait b' = overflow_wait b \<and> behind_wait b' = behind_wait b \<and>
      behind_writes b' = behind_writes b \<and> behind_writes_used b' = behind_writes_used b \<and>
      file_pages (storage b') = file_pages (storage b) \<and>
      filemap (storage b') = filemap (storage b) \<and>
      filemap_attr (storage b') = filemap_attr (storage b) \<and>
      storage_file (storage b') = storage_file (storage b) \<and>
      bytes (storage b') = bytes (storage b) \<and>
      (sb_page (storage b') = None) = (sb_page (storage b) = None) \<and>
      flags b \<subseteq> flags b' \<and>
      (BITMAP_HOSTENDIAN \<in> flags b') = (BITMAP_HOSTENDIAN \<in> flags b))"

lemma io_frame_refl [simp]: "io_frame b b"
  by (simp add: io_frame_def)

lemma io_frame_trans: "io_frame b b' \<Longrightarrow> io_frame b' b'' \<Longrightarrow> io_frame b b''"
  by (auto simp: io_frame_def)

lemma io_frame_next_answer: "io_frame b (next_answer b)"
  by (simp add: io_frame_def next_answer_def)

lemma io_frame_end_bitmap_write: "io_frame b (end_bitmap_write b u)"
  by (simp add: io_frame_def end_bitmap_write_def Let_def subset_insertI)

lemma io_frame_wait_pending_writes: "io_frame b (wait_pending_writes b)"
proof (induction b rule: wait_pending_writes.induct)
  case (1 bitmap)
  show ?case
  proof (cases "pending_writes bitmap \<le> 0")
    case True
    then show ?thesis by (simp add: wait_pending_writes.simps [of bitmap])
  next
    case False
    have "io_frame bitmap
            (end_bitmap_write (next_answer bitmap) (transport bitmap 0 \<noteq> IO_not_uptodate))"
      using io_frame_next_answer io_frame_end_bitmap_write by (rule io_frame_trans)
    from this "1" [OF False] have "io_frame bitmap (wait_pending_writes
            (end_bitmap_write (next_answer bitmap) (transport bitmap 0 \<noteq> IO_not_uptodate)))"
      by (rule io_frame_trans)
    then show ?thesis using False by (simp add: wait_pending_writes.simps [of bitmap])
  qed
qed

lemma io_frame_write_sb_page:
  "write_sb_page b page wait = (r, b') \<Longrightarrow> io_frame b b'"
  by (cases "transport b 0") (auto simp: write_sb_page_def next_answer_def io_frame_def)

lemma io_frame_write_page_io: "io_frame b (write_page_io b page wait)"
proof (cases "storage_file (storage b)")
  case True
  have "io_frame b (b\<lparr>pending_writes := pending_writes b + 1,
                      written := page_snapshot b page # written b\<rparr>)"
    by (simp add: io_frame_def)
  then show ?thesis
    using True io_frame_wait_pending_writes
    by (auto simp: write_page_io_def Let_def intro: io_frame_trans)
next
  case False
  obtain r b' where w: "write_sb_page b page wait = (r, b')"
    by (cases "write_sb_page b page wait") auto
  have "io_frame b' (b'\<lparr>flags := insert BITMAP_WRITE_ERROR (flags b')\<rparr>)"
    by (auto simp: io_frame_def)
  with io_frame_write_sb_page [OF w] have "io_frame b (b'\<lparr>flags := insert BITMAP_WRITE_ERROR (flags b')\<rparr>)"
    by (rule io_frame_trans)
  with io_frame_write_sb_page [OF w] False w show ?thesis
    by (cases r; simp add: write_page_io_def split: errno.splits)
qed

lemma io_frame_update_sb_prepare:
  "sb_page (storage b) = Some sb0 \<Longrightarrow> io_frame b (update_sb_prepare b sb)"
  by (simp add: io_frame_def update_sb_prepare_def next_answer_def Let_def)

lemma io_frame_write_page_kick_update_sb:
  "io_frame b (write_page b page wait)"
  "io_frame b1 (bitmap_file_kick b1)"
  "io_frame b2 (bitmap_update_sb b2)"
proof (induction b page wait and b1 and b2 rule: write_page_bitmap_file_kick_bitmap_update_sb.induct)
  case (1 bitmap page wait)
  show ?case
  proof (cases "BITMAP_WRITE_ERROR \<in> flags (write_page_io bitmap page wait)")
    case True
    from io_frame_write_page_io "1" [OF True]
    have "io_frame bitmap (bitmap_file_kick (write_page_io bitmap page wait))"
      by (rule io_frame_trans)
    then show ?thesis using True by (simp add: write_page.simps [of bitmap])
  next
    case False
    then show ?thesis by (simp add: write_page.simps [of bitmap] io_frame_write_page_io)
  qed
next
  case (2 bitmap)
  show ?case
  proof (cases "BITMAP_STALE \<in> flags bitmap")
    case True
    then show ?thesis by (simp add: bitmap_file_kick.simps [of bitmap])
  next
    case False
    have "io_frame bitmap (bitmap\<lparr>flags := insert BITMAP_STALE (flags bitmap)\<rparr>)"
      by (auto simp: io_frame_def)
    from this "2" [OF False]
    have "io_frame bitmap (bitmap_update_sb (bitmap\<lparr>flags := insert BITMAP_STALE (flags bitmap)\<rparr>))"
      by (rule io_frame_trans)
    then show ?thesis using False by (simp add: bitmap_file_kick.simps [of bitmap])
  qed
next
  case (3 bitmap)
  show ?case
  proof (cases "bi_external (mddev bitmap)")
    case True
    then show ?thesis by (simp add: bitmap_update_sb.simps [of bitmap])
  next
    case ext: False
    show ?thesis
    proof (cases "sb_page (storage bitmap)")
      case None
      then show ?thesis by (simp add: bitmap_update_sb.simps [of bitmap])
    next
      case (Some sb)
      show ?thesis
      proof (cases "transport bitmap 0 = IO_lock_refused")
        case True
        then show ?thesis
          using ext Some
          by (simp add: bitmap_update_sb.simps [of bitmap] io_frame_update_sb_prepare [OF Some])
      next
        case False
        from io_frame_update_sb_prepare [OF Some] "3" [OF ext Some False]
        have "io_frame bitmap (write_page (update_sb_prepare bitmap sb) 0 True)"
          by (rule io_frame_trans)
        then show ?thesis
          using ext Some False by (simp add: bitmap_update_sb.simps [of bitmap])
      qed
    qed
  qed
qed


lemma write_page_file_pages [simp]:
  "file_pages (storage (write_page b page wait)) = file_pages (storage b)"
  using io_frame_write_page_kick_update_sb(1) [of b page wait] by (simp add: io_frame_def)

lemma page_attr_file_pages [simp]:
  "file_pages (storage (set_page_attr b pnum attr)) = file_pages (storage b)"
  "file_pages (storage (clear_page_attr b pnum attr)) = file_pages (storage b)"
  by (simp_all add: set_page_attr_def clear_page_attr_def)

subsection \<open>bitmap_unplug\<close>

text \<open>\<^verbatim>\<open>test_and_clear_page_attr\<close>: the old value of the bit and the state with it cleared.\<close>

definition test_and_clear_page_attr ::
  "bitmap \<Rightarrow> nat \<Rightarrow> bitmap_page_attr \<Rightarrow> bool \<times> bitmap" where
  "test_and_clear_page_attr bitmap pnum attr =
     (test_page_attr bitmap pnum attr, clear_page_attr bitmap pnum attr)"

text \<open>
  One page of the loop of \<^verbatim>\<open>bitmap_unplug\<close>: the state after it and whether the
  page was dirty.
\<close>

definition unplug_page :: "bitmap \<Rightarrow> nat \<Rightarrow> bitmap \<times> bool" where
  "unplug_page bitmap i =
     (case test_and_clear_page_attr bitmap i BITMAP_PAGE_DIRTY of
        (dirty, bitmap1) \<Rightarrow>
          (case test_and_clear_page_attr bitmap1 i BITMAP_PAGE_NEEDWRITE of
             (need_write, bitmap2) \<Rightarrow>
               (if dirty \<or> need_write
                then (write_page (clear_page_attr bitmap2 i BITMAP_PAGE_PENDING) i False, dirty)
                else (bitmap2, dirty))))"

lemma unplug_page_file_pages:
  "unplug_page b i = (b', d) \<Longrightarrow> file_pages (storage b') = file_pages (storage b)"
  by (auto simp: unplug_page_def test_and_clear_page_attr_def split: if_splits)

text \<open>
  The loop over the pages, from page \<open>i\<close>: \<open>Inl\<close> when the function returned
  from inside the loop (the filemap was gone), \<open>Inr\<close> with the state and the flag
  \<open>wait\<close> when the loop ran to its end.
\<close>

function unplug_loop :: "bitmap \<Rightarrow> nat \<Rightarrow> bool \<Rightarrow> bitmap + bitmap \<times> bool" where
  "unplug_loop bitmap i wait =
     (if i < file_pages (storage bitmap) then
        (if filemap (storage bitmap) = None then Inl bitmap
         else case unplug_page bitmap i of
                (b, dirty) \<Rightarrow> unplug_loop b (i + 1) (if dirty then True else wait))
      else Inr (bitmap, wait))"
  by pat_completeness auto
termination
  by (relation "measure (\<lambda>(b, i, wait). file_pages (storage b) - i)")
     (auto dest: unplug_page_file_pages [OF sym])

declare unplug_loop.simps [simp del]

text \<open>
  \<^verbatim>\<open>bitmap_unplug\<close> (for a bitmap that is not NULL). \<^verbatim>\<open>md_super_wait\<close> waits for
  writes that the model has already handed over, so it changes nothing here.
\<close>

definition bitmap_unplug :: "bitmap \<Rightarrow> bitmap" where
  "bitmap_unplug bitmap =
     (if filemap (storage bitmap) = None \<or> BITMAP_STALE \<in> flags bitmap then bitmap
      else case unplug_loop bitmap 0 False of
             Inl b \<Rightarrow> b
           | Inr (b, wait) \<Rightarrow>
               (let bitmap1 = (if wait then
                                 (if storage_file (storage b) then wait_pending_writes b else b)
                               else b)
                in if BITMAP_WRITE_ERROR \<in> flags bitmap1 then bitmap_file_kick bitmap1
                   else bitmap1))"

subsection \<open>bitmap_daemon_work\<close>

text \<open>The first loop: every page that is PENDING becomes NEEDWRITE.\<close>

function daemon_pending :: "bitmap \<Rightarrow> nat \<Rightarrow> bitmap" where
  "daemon_pending bitmap j =
     (if j < file_pages (storage bitmap) then
        (case test_and_clear_page_attr bitmap j BITMAP_PAGE_PENDING of
           (True, b) \<Rightarrow> daemon_pending (set_page_attr b j BITMAP_PAGE_NEEDWRITE) (j + 1)
         | (False, b) \<Rightarrow> daemon_pending b (j + 1))
      else bitmap)"
  by pat_completeness auto
termination
  by (relation "measure (\<lambda>(b, j). file_pages (storage b) - j)")
     (auto simp: test_and_clear_page_attr_def)

declare daemon_pending.simps [simp del]

text \<open>
  What the daemon does to a counter it visits (\<open>bmc\<close> is the pointer that the
  lookup at \<open>block\<close> returned).
\<close>

definition daemon_visit :: "bitmap \<Rightarrow> nat \<Rightarrow> bmc_ptr \<Rightarrow> bitmap" where
  "daemon_visit bitmap block bmc =
     (if deref (counts bitmap) bmc = 1 \<and> \<not> need_sync bitmap then
        (let bitmap1 = bitmap\<lparr>counts := assign (counts bitmap) bmc 0\<rparr>;
             bitmap2 = bitmap1\<lparr>counts := bitmap_count_page (counts bitmap1) block (- 1)\<rparr>
         in bitmap_file_clear_bit bitmap2 block)
      else if deref (counts bitmap) bmc \<noteq> 0 \<and> deref (counts bitmap) bmc \<le> 2 then
        (let bitmap1 = bitmap\<lparr>counts := assign (counts bitmap) bmc 1\<rparr>;
             bitmap2 = bitmap1\<lparr>counts := bitmap_set_pending (counts bitmap1) block\<rparr>
         in bitmap2\<lparr>allclean := False\<rparr>)
      else bitmap)"

text \<open>
  One turn of the loop over the chunks, at chunk \<open>j\<close>: the state after it, the
  chunk the loop goes on with, and \<open>nextpage\<close>.
\<close>

definition daemon_chunk :: "bitmap \<Rightarrow> nat \<Rightarrow> nat \<Rightarrow> bitmap \<times> nat \<times> nat" where
  "daemon_chunk bitmap j nextpage =
     (let block = push_bit (chunkshift (counts bitmap)) j
      in if j = nextpage \<and> \<not> pending (bp (counts bitmap) (drop_bit PAGE_COUNTER_SHIFT j))
         then (bitmap, (j OR PAGE_COUNTER_MASK) + 1, nextpage + PAGE_COUNTER_RATIO)
         else
           (let nextpage1 = (if j = nextpage then nextpage + PAGE_COUNTER_RATIO else nextpage);
                bitmap1 = (if j = nextpage
                           then bitmap\<lparr>counts := (counts bitmap)
                                  \<lparr>bp := (bp (counts bitmap))
                                     (drop_bit PAGE_COUNTER_SHIFT j :=
                                        (bp (counts bitmap) (drop_bit PAGE_COUNTER_SHIFT j))
                                          \<lparr>pending := False\<rparr>)\<rparr>\<rparr>
                           else bitmap)
            in case bitmap_get_counter (counts bitmap1) block False False of
                 (None, blocks, c) \<Rightarrow>
                   (bitmap1\<lparr>counts := c\<rparr>, (j OR PAGE_COUNTER_MASK) + 1, nextpage1)
               | (Some bmc, blocks, c) \<Rightarrow>
                   (daemon_visit (bitmap1\<lparr>counts := c\<rparr>) block bmc, j + 1, nextpage1)))"


lemma checkfree_geometry [simp]:
  "pages (bitmap_checkfree c p) = pages c"
  "chunkshift (bitmap_checkfree c p) = chunkshift c"
  "chunks (bitmap_checkfree c p) = chunks c"
  by (simp_all add: bitmap_checkfree_def)

lemma count_page_geometry [simp]:
  "pages (bitmap_count_page c offset inc) = pages c"
  "chunkshift (bitmap_count_page c offset inc) = chunkshift c"
  "chunks (bitmap_count_page c offset inc) = chunks c"
  by (simp_all add: count_page_alt)

lemma daemon_visit_geometry [simp]:
  "pages (counts (daemon_visit b block bmc)) = pages (counts b)"
  "chunkshift (counts (daemon_visit b block bmc)) = chunkshift (counts b)"
  "chunks (counts (daemon_visit b block bmc)) = chunks (counts b)"
  by (simp_all add: daemon_visit_def Let_def)

lemma nat_le_or: "(j::nat) \<le> j OR m"
proof -
  have "int j \<le> int j OR int m" by (rule or_greater_eq) simp
  then show ?thesis by (metis of_nat_or_eq of_nat_le_iff)
qed

lemma daemon_chunk_progress:
  assumes "daemon_chunk b j nextpage = (b', j', nextpage')"
  shows "j < j'" "chunks (counts b') = chunks (counts b)"
proof -
  have l: "j < (j OR PAGE_COUNTER_MASK) + 1" using nat_le_or [of j PAGE_COUNTER_MASK] by simp
  obtain r blocks c where g: "bitmap_get_counter
      (counts (if j = nextpage
               then b\<lparr>counts := (counts b)
                      \<lparr>bp := (bp (counts b))
                         (drop_bit PAGE_COUNTER_SHIFT j :=
                            (bp (counts b) (drop_bit PAGE_COUNTER_SHIFT j))
                              \<lparr>pending := False\<rparr>)\<rparr>\<rparr>
               else b))
      (push_bit (chunkshift (counts b)) j) False False = (r, blocks, c)"
    by (metis prod_cases3)
  from get_counter_nocreate [OF g] have c: "chunks c = chunks (counts b)" by auto
  show "j < j'"
    using assms l g
    by (auto simp: daemon_chunk_def Let_def split: if_splits option.splits)
  show "chunks (counts b') = chunks (counts b)"
    using assms g c
    by (auto simp: daemon_chunk_def Let_def split: if_splits option.splits)
qed

text \<open>The loop over the chunks, from chunk \<open>j\<close>.\<close>

function daemon_counters :: "bitmap \<Rightarrow> nat \<Rightarrow> nat \<Rightarrow> bitmap" where
  "daemon_counters bitmap j nextpage =
     (if j < chunks (counts bitmap) then
        (case daemon_chunk bitmap j nextpage of
           (b, j', nextpage') \<Rightarrow> daemon_counters b j' nextpage')
      else bitmap)"
  by pat_completeness auto
termination
proof (relation "measure (\<lambda>(b, j, nextpage). chunks (counts b) - j)", goal_cases)
  case 1
  show ?case by simp
next
  case (2 bitmap j nextpage x xa y)
  obtain b' j' np' where e: "daemon_chunk bitmap j nextpage = (b', j', np')"
    by (metis prod_cases3)
  from daemon_chunk_progress [OF e] "2"(1) "2"(2) "2"(3) show ?case
    by (simp add: e)
qed

declare daemon_counters.simps [simp del]

text \<open>
  The last loop: pages that are NEEDWRITE and not DIRTY are written, up to the
  first DIRTY page, and only while the file is not stale.
\<close>

function daemon_writeout :: "bitmap \<Rightarrow> nat \<Rightarrow> bitmap" where
  "daemon_writeout bitmap j =
     (if j < file_pages (storage bitmap) \<and> BITMAP_STALE \<notin> flags bitmap then
        (if test_page_attr bitmap j BITMAP_PAGE_DIRTY then bitmap
         else case test_and_clear_page_attr bitmap j BITMAP_PAGE_NEEDWRITE of
                (True, b) \<Rightarrow> daemon_writeout (write_page b j False) (j + 1)
              | (False, b) \<Rightarrow> daemon_writeout b (j + 1))
      else bitmap)"
  by pat_completeness auto
termination
  by (relation "measure (\<lambda>(b, j). file_pages (storage b) - j)")
     (auto simp: test_and_clear_page_attr_def)

declare daemon_writeout.simps [simp del]

text \<open>
  \<^verbatim>\<open>bitmap_daemon_work\<close>, for an array that has a bitmap; \<open>jiffies\<close> is the time of
  the call. The label \<^verbatim>\<open>done\<close> is \<open>daemon_done\<close>; \<open>thread_timeout\<close> is
  \<^verbatim>\<open>mddev->thread->timeout\<close>, \<open>None\<close> standing for \<^verbatim>\<open>MAX_SCHEDULE_TIMEOUT\<close>.
\<close>

definition daemon_done :: "bitmap \<Rightarrow> bitmap" where
  "daemon_done bitmap =
     (if \<not> allclean bitmap
      then bitmap\<lparr>mddev := (mddev bitmap)
             \<lparr>thread_timeout := Some (bi_daemon_sleep (mddev bitmap))\<rparr>\<rparr>
      else bitmap)"

definition daemon_stamp_sb :: "bitmap \<Rightarrow> bitmap" where
  "daemon_stamp_sb bitmap =
     (if need_sync bitmap \<and> \<not> bi_external (mddev bitmap) then
        (let bitmap1 = bitmap\<lparr>need_sync := False\<rparr>
         in if filemap (storage bitmap1) \<noteq> None then
              set_page_attr
                (bitmap1\<lparr>storage := (storage bitmap1)
                   \<lparr>sb_page := map_option (\<lambda>sb. sb\<lparr>sb_events_cleared := events_cleared bitmap1\<rparr>)
                                (sb_page (storage bitmap1))\<rparr>\<rparr>)
                0 BITMAP_PAGE_NEEDWRITE
            else bitmap1)
      else bitmap)"

definition bitmap_daemon_work :: "bitmap \<Rightarrow> nat \<Rightarrow> bitmap" where
  "bitmap_daemon_work bitmap jiffies =
     (if jiffies < daemon_lastrun bitmap + bi_daemon_sleep (mddev bitmap)
      then daemon_done bitmap
      else
        (let bitmap1 = bitmap\<lparr>daemon_lastrun := jiffies\<rparr>
         in if allclean bitmap1
            then daemon_done (bitmap1\<lparr>mddev := (mddev bitmap1)\<lparr>thread_timeout := None\<rparr>\<rparr>)
            else
              (let bitmap2 = bitmap1\<lparr>allclean := True\<rparr>;
                   bitmap3 = daemon_pending bitmap2 0;
                   bitmap4 = daemon_stamp_sb bitmap3;
                   bitmap5 = daemon_counters bitmap4 0 0;
                   bitmap6 = daemon_writeout bitmap5 0
               in daemon_done bitmap6)))"







lemma checkfree_count [simp]:
  "count (bp (bitmap_checkfree c p) q) = count (bp c q)"
  "pending (bp (bitmap_checkfree c p) q) = pending (bp c q)"
  by (simp_all add: bitmap_checkfree_def)






section \<open>bitmap_resize\<close>

text \<open>
  Modelled from the spec: \<^verbatim>\<open>BITMAP_BLOCK_SHIFT\<close> is a constant of the absent
  header; a chunk is \<open>2 ^ chunkshift\<close> sectors of 512 bytes, so the shift from a
  size in bytes is 9.
\<close>

definition BITMAP_BLOCK_SHIFT :: nat where
  "BITMAP_BLOCK_SHIFT = 9"

definition DIV_ROUND_UP :: "nat \<Rightarrow> nat \<Rightarrow> nat" where
  "DIV_ROUND_UP n d = (n + d - 1) div d"

text \<open>
  \<^verbatim>\<open>ffz(~x)\<close>, the index of the lowest bit that is set in \<open>x\<close> (the code passes
  a chunk size, which is not 0).
\<close>

function ffz_not :: "nat \<Rightarrow> nat" where
  "ffz_not x = (if x = 0 \<or> odd x then 0 else 1 + ffz_not (x div 2))"
  by pat_completeness auto
termination
  by (relation "measure (\<lambda>x. x)") auto

declare ffz_not.simps [simp del]

text \<open>The size in bytes of the bit file for \<open>nchunks\<close> chunks.\<close>

definition storage_bytes :: "nat \<Rightarrow> bool \<Rightarrow> nat" where
  "storage_bytes nchunks with_super =
     DIV_ROUND_UP nchunks 8 + (if with_super then sizeof_bitmap_super_t else 0)"

text \<open>
  The \<^verbatim>\<open>do ... while (bytes > (space << 9))\<close> loop that doubles the chunk size
  until the bits fit the reserved space. It does not end when no chunk size
  fits, so its result is an option.
\<close>

partial_function (option) fit_chunkshift :: "nat \<Rightarrow> nat \<Rightarrow> bool \<Rightarrow> nat \<Rightarrow> nat option" where
  "fit_chunkshift blocks space with_super cshift =
     (if storage_bytes (DIV_ROUND_UP blocks (push_bit cshift 1)) with_super
           > push_bit 9 space
      then fit_chunkshift blocks space with_super (cshift + 1)
      else Some cshift)"

text \<open>
  \<^verbatim>\<open>bitmap_storage_alloc\<close> on a zeroed \<^verbatim>\<open>store\<close>, when all its allocations
  succeed: zeroed pages, a zeroed superblock page when \<open>with_super\<close>.
\<close>

definition zero_sb :: bitmap_super_t where
  "zero_sb = \<lparr>sb_events = 0, sb_events_cleared = 0, sb_state = {}, sb_write_behind = 0,
               sb_sync_size = 0, sb_chunksize = 0, sb_nodes = 0, sb_sectors_reserved = 0\<rparr>"

definition zero_store :: bitmap_storage where
  "zero_store = \<lparr>storage_file = False, sb_page = None, filemap = None, filemap_attr = {},
                  file_pages = 0, bytes = 0\<rparr>"

definition bitmap_storage_alloc :: "bitmap_storage \<Rightarrow> nat \<Rightarrow> bool \<Rightarrow> bitmap_storage" where
  "bitmap_storage_alloc store nchunks with_super =
     store\<lparr>sb_page := (if with_super \<and> sb_page store = None then Some zero_sb
                        else sb_page store),
            filemap := Some (\<lambda>page bit_n. False),
            filemap_attr := {},
            file_pages := DIV_ROUND_UP (storage_bytes nchunks with_super) PAGE_SIZE,
            bytes := storage_bytes nchunks with_super\<rparr>"

text \<open>The table of page slots that \<^verbatim>\<open>kzalloc\<close> returns: every field 0.\<close>

definition zero_page_slot :: bitmap_page where
  "zero_page_slot = \<lparr>map_ptr = None, map_ctr = (\<lambda>hi. 0), hijacked = False, pending = False,
                      count = 0\<rparr>"

text \<open>
  The inner loop \<^verbatim>\<open>while (start < end)\<close> of the overlap walk. It sets the bit of
  \<open>block\<close> in every turn.
\<close>

function resize_set_bits :: "bitmap \<Rightarrow> nat \<Rightarrow> nat \<Rightarrow> nat \<Rightarrow> bitmap" where
  "resize_set_bits bitmap block start end_sector =
     (if start < end_sector
      then resize_set_bits (bitmap_file_set_bit bitmap block) block
             (start + push_bit (chunkshift (counts bitmap)) 1) end_sector
      else bitmap)"
  by pat_completeness auto
termination
proof (relation "measure (\<lambda>(b, block, start, e). e - start)", goal_cases)
  case 1
  show ?case by simp
next
  case (2 bitmap block start end_sector)
  have "start < start + 2 ^ chunkshift (counts bitmap)" by simp
  from diff_less_mono2 [OF this "2"] show ?case by (simp add: push_bit_eq_mult)
qed

declare resize_set_bits.simps [simp del]

text \<open>
  One turn of the walk over the overlap of the old and the new range, at
  \<open>block\<close>: the state after it and the number of sectors the walk advances.
  \<open>old_counts\<close> is only read. A new counter is looked up with \<^verbatim>\<open>create\<close>; the
  code uses the pointer without a test, and the model leaves the state alone
  should it be NULL.
\<close>

definition resize_overlap_step ::
  "bitmap_counts \<Rightarrow> bitmap \<Rightarrow> nat \<Rightarrow> bool \<Rightarrow> bitmap \<times> nat" where
  "resize_overlap_step old_counts bitmap block kzalloc_ok =
     (case bitmap_get_counter old_counts block False False of
        (bmc_old, old_blocks, oc) \<Rightarrow>
          (if (case bmc_old of None \<Rightarrow> False | Some p \<Rightarrow> NEEDED (deref old_counts p))
           then
             (case bitmap_get_counter (counts bitmap) block True kzalloc_ok of
                (None, new_blocks, c) \<Rightarrow>
                  (bitmap\<lparr>counts := c\<rparr>,
                   if new_blocks < old_blocks then new_blocks else old_blocks)
              | (Some bmc_new, new_blocks, c) \<Rightarrow>
                  (let bitmap1 = bitmap\<lparr>counts := c\<rparr>;
                       bitmap2 =
                         (if deref c bmc_new = 0 then
                            (let end_sector = block + new_blocks;
                                 start = push_bit (chunkshift c) (drop_bit (chunkshift c) block);
                                 bitmap_a = resize_set_bits bitmap1 block start end_sector;
                                 bitmap_b = bitmap_a\<lparr>counts := assign (counts bitmap_a) bmc_new 2\<rparr>;
                                 bitmap_c = bitmap_b\<lparr>counts :=
                                   bitmap_count_page (counts bitmap_b) block 1\<rparr>
                             in bitmap_c\<lparr>counts := bitmap_set_pending (counts bitmap_c) block\<rparr>)
                          else bitmap1);
                       bitmap3 = bitmap2\<lparr>counts := assign (counts bitmap2) bmc_new
                                   (deref (counts bitmap2) bmc_new OR NEEDED_MASK)\<rparr>
                   in (bitmap3, if new_blocks < old_blocks then new_blocks else old_blocks)))
           else (bitmap, old_blocks)))"


lemma resize_overlap_step_advance:
  "resize_overlap_step oc b block ok = (b', n) \<Longrightarrow> 0 < n"
  by (auto simp: resize_overlap_step_def Let_def split: prod.splits option.splits if_splits
      dest: get_counter_blocks_pos)

text \<open>
  The walk \<^verbatim>\<open>for (block = 0; block < blocks; )\<close>, from \<open>block\<close>: the state, the
  sector where it stopped, and the answers of \<^verbatim>\<open>kzalloc\<close> that are left.
\<close>

function resize_overlap ::
  "bitmap_counts \<Rightarrow> bitmap \<Rightarrow> nat \<Rightarrow> nat \<Rightarrow> (nat \<Rightarrow> bool)
     \<Rightarrow> bitmap \<times> nat \<times> (nat \<Rightarrow> bool)" where
  "resize_overlap old_counts bitmap blocks block kz =
     (if block < blocks then
        (case resize_overlap_step old_counts bitmap block (kz 0) of
           (b, n) \<Rightarrow> resize_overlap old_counts b blocks (block + n) (\<lambda>i. kz (Suc i)))
      else (bitmap, block, kz))"
  by pat_completeness auto
termination
proof (relation "measure (\<lambda>(oc, b, blocks, block, kz). blocks - block)", goal_cases)
  case 1
  show ?case by simp
next
  case 2
  from resize_overlap_step_advance [OF "2"(2) [symmetric]] "2"(1) show ?case by simp
qed

declare resize_overlap.simps [simp del]

text \<open>One turn of the second loop, over the space beyond the walk.\<close>

definition resize_beyond_step :: "bitmap \<Rightarrow> nat \<Rightarrow> bool \<Rightarrow> bitmap \<times> nat" where
  "resize_beyond_step bitmap block kzalloc_ok =
     (case bitmap_get_counter (counts bitmap) block True kzalloc_ok of
        (None, new_blocks, c) \<Rightarrow> (bitmap\<lparr>counts := c\<rparr>, new_blocks)
      | (Some bmc, new_blocks, c) \<Rightarrow>
          (if deref c bmc = 0 then
             (let bitmap1 = bitmap\<lparr>counts := assign c bmc (NEEDED_MASK OR 2)\<rparr>;
                  bitmap2 = bitmap1\<lparr>counts := bitmap_count_page (counts bitmap1) block 1\<rparr>
              in (bitmap2\<lparr>counts := bitmap_set_pending (counts bitmap2) block\<rparr>, new_blocks))
           else (bitmap\<lparr>counts := c\<rparr>, new_blocks)))"

lemma resize_beyond_step_advance:
  assumes "resize_beyond_step b block ok = (b', n)"
  shows "0 < n" "chunks (counts b') = chunks (counts b)"
    "chunkshift (counts b') = chunkshift (counts b)"
proof -
  obtain r nb c where g: "bitmap_get_counter (counts b) block True ok = (r, nb, c)"
    by (metis prod_cases3)
  have c: "chunks c = chunks (counts b)" "chunkshift c = chunkshift (counts b)"
    using g
    by (auto simp: bitmap_get_counter_alt bitmap_checkpage_def split: sum.splits if_splits)
  from get_counter_blocks_pos [OF g] assms g show "0 < n"
    by (auto simp: resize_beyond_step_def Let_def split: option.splits if_splits)
  from assms g c show "chunks (counts b') = chunks (counts b)"
    "chunkshift (counts b') = chunkshift (counts b)"
    by (auto simp: resize_beyond_step_def Let_def split: option.splits if_splits)
qed

function resize_beyond :: "bitmap \<Rightarrow> nat \<Rightarrow> (nat \<Rightarrow> bool) \<Rightarrow> bitmap" where
  "resize_beyond bitmap block kz =
     (if block < push_bit (chunkshift (counts bitmap)) (chunks (counts bitmap)) then
        (case resize_beyond_step bitmap block (kz 0) of
           (b, n) \<Rightarrow> resize_beyond b (block + n) (\<lambda>i. kz (Suc i)))
      else bitmap)"
  by pat_completeness auto
termination
proof (relation "measure (\<lambda>(b, block, kz).
         push_bit (chunkshift (counts b)) (chunks (counts b)) - block)", goal_cases)
  case 1
  show ?case by simp
next
  case 2
  from resize_beyond_step_advance [OF "2"(2) [symmetric]] "2"(1) show ?case by simp
qed

declare resize_beyond.simps [simp del]

text \<open>The loop that marks every page of the new file DIRTY.\<close>

fun resize_dirty_all :: "bitmap \<Rightarrow> nat \<Rightarrow> bitmap" where
  "resize_dirty_all bitmap 0 = bitmap"
| "resize_dirty_all bitmap (Suc i) =
     set_page_attr (resize_dirty_all bitmap i) i BITMAP_PAGE_DIRTY"


text \<open>
  The part of \<^verbatim>\<open>bitmap_resize\<close> that replaces the counters: the new table of
  \<open>npages\<close> zeroed slots is installed, the overlap is walked, and, unless
  \<open>init\<close>, the space beyond is marked and every page of the file made DIRTY.
\<close>

definition resize_counts ::
  "bitmap \<Rightarrow> nat \<Rightarrow> nat \<Rightarrow> nat \<Rightarrow> bool \<Rightarrow> (nat \<Rightarrow> bool) \<Rightarrow> bitmap" where
  "resize_counts bitmap npages cshift nchunks init kz =
     (let old_counts = counts bitmap;
          bitmap1 = bitmap\<lparr>counts := \<lparr>bp = (\<lambda>page. zero_page_slot), pages = npages,
                                      missing_pages = of_nat npages, chunkshift = cshift,
                                      chunks = nchunks\<rparr>,
                           mddev := (mddev bitmap)
                             \<lparr>bi_chunksize := push_bit (cshift + BITMAP_BLOCK_SHIFT) 1\<rparr>\<rparr>;
          blocks = min (push_bit (chunkshift old_counts) (chunks old_counts))
                       (push_bit cshift nchunks)
      in case resize_overlap old_counts bitmap1 blocks 0 kz of
           (bitmap2, block, kz') \<Rightarrow>
             (if \<not> init
              then resize_dirty_all (resize_beyond bitmap2 block kz')
                     (file_pages (storage bitmap2))
              else bitmap2))"

text \<open>
  \<^verbatim>\<open>bitmap_resize\<close>. \<open>storage_ok\<close> and \<open>bp_ok\<close> say whether
  \<^verbatim>\<open>bitmap_storage_alloc\<close> and the allocation of the slot table succeed, \<open>kz\<close>
  answers the allocations of counter pages. The result is \<open>None\<close> when the search
  for a chunk size does not end, and when a \<^verbatim>\<open>chunksize\<close> below 512 is passed:
  \<^verbatim>\<open>ffz(~chunksize) - BITMAP_BLOCK_SHIFT\<close> is negative then, and the shifts by it
  have no defined value in C. Otherwise it is \<open>Inl\<close> for a negative return value
  (with the state it leaves) and \<open>Inr\<close> for the state after a return of 0.
  \<^verbatim>\<open>pers->quiesce\<close> is a callback of the array, not of this file: it returns
  when the array has no write in flight, and changes nothing of the bitmap
  itself.
\<close>

definition bitmap_resize ::
  "bitmap \<Rightarrow> nat \<Rightarrow> nat \<Rightarrow> bool \<Rightarrow> bool \<Rightarrow> bool \<Rightarrow> (nat \<Rightarrow> bool)
     \<Rightarrow> (errno \<times> bitmap + bitmap) option" where
  "bitmap_resize bitmap blocks csize init storage_ok bp_ok kz =
     (let with_super = \<not> bi_external (mddev bitmap);
          bitmap1 =
            (if csize = 0 \<and> bi_space (mddev bitmap) = 0
             then bitmap\<lparr>mddev := (mddev bitmap)
                    \<lparr>bi_space := DIV_ROUND_UP
                        (storage_bytes (chunks (counts bitmap)) with_super) 512\<rparr>\<rparr>
             else bitmap)
      in case (if csize = 0
               then fit_chunkshift blocks (bi_space (mddev bitmap1)) with_super
                      (chunkshift (counts bitmap))
               else if ffz_not csize < BITMAP_BLOCK_SHIFT then None
               else Some (ffz_not csize - BITMAP_BLOCK_SHIFT)) of
           None \<Rightarrow> None
         | Some cshift \<Rightarrow>
             (let nchunks = DIV_ROUND_UP blocks (push_bit cshift 1);
                  want_store = (bi_offset (mddev bitmap1) \<noteq> 0 \<or> bi_file (mddev bitmap1))
              in if want_store \<and> \<not> storage_ok then Some (Inl (ENOMEM, bitmap1))
                 else if \<not> bp_ok then Some (Inl (ENOMEM, bitmap1))
                 else
                   (let store = (if want_store
                                 then bitmap_storage_alloc zero_store nchunks with_super
                                 else zero_store);
                        store1 = store\<lparr>storage_file := storage_file (storage bitmap1)\<rparr>;
                        store2 = (if sb_page store1 \<noteq> None \<and> sb_page (storage bitmap1) \<noteq> None
                                  then store1\<lparr>sb_page := sb_page (storage bitmap1)\<rparr>
                                  else store1);
                        bitmap2 = bitmap1\<lparr>storage := store2\<rparr>;
                        bitmap3 = resize_counts bitmap2 (DIV_ROUND_UP nchunks PAGE_COUNTER_RATIO)
                                    cshift nchunks init kz
                    in Some (Inr (if \<not> init then bitmap_unplug bitmap3 else bitmap3)))))"


section \<open>How the counter map evolves\<close>

text \<open>
  Every function of the engine changes the counter map through a handful of
  primitive steps: \<^verbatim>\<open>bitmap_checkpage\<close>, \<^verbatim>\<open>bitmap_checkfree\<close>, a new value of a
  slot's \<open>count\<close> or \<open>pending\<close>, a write through a counter pointer, and the
  fresh table of \<^verbatim>\<open>bitmap_resize\<close>. \<open>W old new\<close> says which values \<open>new\<close> may be
  written over a counter that reads \<open>old\<close>.
\<close>

inductive counts_step ::
  "(bitmap_counter_t \<Rightarrow> bitmap_counter_t \<Rightarrow> bool) \<Rightarrow> bitmap_counts \<Rightarrow> bitmap_counts \<Rightarrow> bool"
  for W where
    step_checkpage: "bitmap_checkpage c p create ok = Inr c' \<Longrightarrow> counts_step W c c'"
  | step_checkfree: "counts_step W c (bitmap_checkfree c p)"
  | step_count: "counts_step W c (c\<lparr>bp := (bp c)(p := (bp c p)\<lparr>count := n\<rparr>)\<rparr>)"
  | step_pending: "counts_step W c (c\<lparr>bp := (bp c)(p := (bp c p)\<lparr>pending := x\<rparr>)\<rparr>)"
  | step_assign: "W (deref c x) v \<Longrightarrow> counts_step W c (assign c x v)"
  | step_table: "counts_step W c \<lparr>bp = (\<lambda>page. zero_page_slot), pages = n,
                                   missing_pages = m, chunkshift = s, chunks = k\<rparr>"

definition evolves ::
  "(bitmap_counter_t \<Rightarrow> bitmap_counter_t \<Rightarrow> bool) \<Rightarrow> bitmap_counts \<Rightarrow> bitmap_counts \<Rightarrow> bool"
  where "evolves W = rtranclp (counts_step W)"

lemma evolves_refl [simp]: "evolves W c c"
  by (simp add: evolves_def)

lemma evolves_trans: "evolves W c c' \<Longrightarrow> evolves W c' c'' \<Longrightarrow> evolves W c c''"
  by (simp add: evolves_def)

lemma evolves_step: "counts_step W c c' \<Longrightarrow> evolves W c c'"
  by (simp add: evolves_def)

lemma evolves_then: "evolves W c c' \<Longrightarrow> counts_step W c' c'' \<Longrightarrow> evolves W c c''"
  by (simp add: evolves_def)

lemma counts_step_mono:
  "counts_step W c c' \<Longrightarrow> (\<And>a b. W a b \<Longrightarrow> W' a b) \<Longrightarrow> counts_step W' c c'"
  by (induction rule: counts_step.induct) (auto intro: counts_step.intros)

lemma evolves_mono:
  assumes "evolves W c c'" and "\<And>a b. W a b \<Longrightarrow> W' a b"
  shows "evolves W' c c'"
  using assms(1) unfolding evolves_def
proof (induction rule: rtranclp_induct)
  case base
  show ?case by simp
next
  case (step y z)
  from step(2) assms(2) have "counts_step W' y z" by (rule counts_step_mono)
  with step(3) show ?case by simp
qed

lemma evolves_invariant:
  assumes e: "evolves W c c'"
    and i: "I c"
    and s: "\<And>x y. I x \<Longrightarrow> counts_step W x y \<Longrightarrow> I y"
  shows "I c'"
  using e unfolding evolves_def
proof (induction rule: rtranclp_induct)
  case base
  show ?case by (rule i)
next
  case (step y z)
  from step(3) step(2) show ?case by (rule s)
qed

text \<open>The primitives of the source as steps.\<close>

lemma evolves_get_counter:
  "bitmap_get_counter c offset create ok = (r, blocks, c') \<Longrightarrow> evolves W c c'"
  by (auto simp: bitmap_get_counter_alt split: sum.splits
      intro: evolves_step step_checkpage)

lemma evolves_count_page: "evolves W c (bitmap_count_page c offset inc)"
  unfolding count_page_alt
  by (rule evolves_then [OF evolves_step [OF step_count] step_checkfree])

lemma evolves_set_pending: "evolves W c (bitmap_set_pending c offset)"
  unfolding set_pending_alt
  by (auto intro: evolves_step step_pending)

lemma evolves_assign: "W (deref c x) v \<Longrightarrow> evolves W c (assign c x v)"
  by (rule evolves_step [OF step_assign])


text \<open>Two invariants of the steps.\<close>

definition hijacked_no_map :: "bitmap_counts \<Rightarrow> bool" where
  "hijacked_no_map c = (\<forall>p. hijacked (bp c p) \<longrightarrow> map_ptr (bp c p) = None)"

lemma hijacked_no_map_step:
  "counts_step W c c' \<Longrightarrow> hijacked_no_map c \<Longrightarrow> hijacked_no_map c'"
proof (induction rule: counts_step.induct)
  case (step_checkpage c p create ok c')
  then show ?case
    by (auto simp: hijacked_no_map_def bitmap_checkpage_def split: if_splits)
next
  case (step_checkfree c p)
  then show ?case by (auto simp: hijacked_no_map_def bitmap_checkfree_def)
next
  case (step_count c p n)
  then show ?case by (auto simp: hijacked_no_map_def)
next
  case (step_pending c p x)
  then show ?case by (auto simp: hijacked_no_map_def)
next
  case (step_assign c x v)
  then show ?case by (simp add: hijacked_no_map_def)
next
  case (step_table c n m s k)
  then show ?case by (simp add: hijacked_no_map_def zero_page_slot_def)
qed

lemma hijacked_no_map_evolves:
  "evolves W c c' \<Longrightarrow> hijacked_no_map c \<Longrightarrow> hijacked_no_map c'"
proof -
  assume e: "evolves W c c'" and i: "hijacked_no_map c"
  show ?thesis
    by (rule evolves_invariant [where I = hijacked_no_map, OF e i])
       (rule hijacked_no_map_step)
qed

text \<open>Every counter that is stored anywhere in the map satisfies \<open>P\<close>.\<close>

definition cells_all :: "(bitmap_counter_t \<Rightarrow> bool) \<Rightarrow> bitmap_counts \<Rightarrow> bool" where
  "cells_all P c =
     (\<forall>p. (\<forall>hi. P (map_ctr (bp c p) hi)) \<and>
          (\<forall>m. map_ptr (bp c p) = Some m \<longrightarrow> (\<forall>pageoff. P (m pageoff))))"

lemma cells_all_deref: "cells_all P c \<Longrightarrow> P 0 \<Longrightarrow> P (deref c x)"
  by (cases x) (auto simp: cells_all_def split: option.splits)

lemma cells_all_assign: "cells_all P c \<Longrightarrow> P v \<Longrightarrow> cells_all P (assign c x v)"
  by (cases x) (auto simp: cells_all_def split: option.splits)

lemma cells_all_step:
  assumes c: "cells_all P c" and s: "counts_step W c c'"
    and z: "P 0" and w: "\<And>a b. P a \<Longrightarrow> W a b \<Longrightarrow> P b"
  shows "cells_all P c'"
  using s c
proof (induction rule: counts_step.induct)
  case (step_checkpage c p create ok c')
  then show ?case
    using z by (auto simp: cells_all_def bitmap_checkpage_def split: if_splits)
next
  case (step_checkfree c p)
  then show ?case using z by (auto simp: cells_all_def bitmap_checkfree_def)
next
  case (step_count c p n)
  then show ?case by (auto simp: cells_all_def)
next
  case (step_pending c p x)
  then show ?case by (auto simp: cells_all_def)
next
  case (step_assign c x v)
  from cells_all_deref [OF step_assign(2) z] step_assign(1) have "P v" by (rule w)
  with step_assign(2) show ?case by (rule cells_all_assign)
next
  case (step_table c n m s k)
  then show ?case using z by (simp add: cells_all_def zero_page_slot_def)
qed

lemma cells_all_evolves:
  assumes "evolves W c c'" "cells_all P c" "P 0" "\<And>a b. P a \<Longrightarrow> W a b \<Longrightarrow> P b"
  shows "cells_all P c'"
proof (rule evolves_invariant [where I = "cells_all P", OF assms(1) assms(2)])
  fix x y
  assume "cells_all P x" "counts_step W x y"
  then show "cells_all P y" using assms(3) assms(4) by (rule cells_all_step)
qed


text \<open>What each operation may write over a counter.\<close>

definition W_startwrite :: "bitmap_counter_t \<Rightarrow> bitmap_counter_t \<Rightarrow> bool" where
  "W_startwrite old new = (new = 2 \<or> (COUNTER old \<noteq> COUNTER_MAX \<and> new = old + 1))"

definition W_endwrite :: "bitmap_counter_t \<Rightarrow> bitmap_counter_t \<Rightarrow> bool" where
  "W_endwrite old new = (new = old OR NEEDED_MASK \<or> new = old - 1)"

definition W_mark :: "bitmap_counter_t \<Rightarrow> bitmap_counter_t \<Rightarrow> bool" where
  "W_mark old new =
     (new = 0 \<or> new = 1 \<or> new = 2 \<or> new = 2 OR NEEDED_MASK \<or> new = NEEDED_MASK OR 2 \<or>
      new = old OR NEEDED_MASK)"

lemma deref_assign_cases: "deref (assign c x v) x = v \<or> deref (assign c x v) x = 0"
  by (cases x) (auto split: option.splits)

lemma evolves_raise:
  "evolves W_startwrite c (assign c x (deref c x + 1))"
  if "COUNTER (deref c x) \<noteq> COUNTER_MAX"
  using that by (intro evolves_assign) (simp add: W_startwrite_def)

lemma evolves_set2_raise:
  "evolves W_startwrite c (assign (assign c x 2) x (deref (assign c x 2) x + 1))"
proof -
  have a: "evolves W_startwrite c (assign c x 2)"
    by (intro evolves_assign) (simp add: W_startwrite_def)
  have "COUNTER (deref (assign c x 2) x) \<noteq> COUNTER_MAX"
    using deref_assign_cases [of c x 2] by (auto simp: COUNTER_def COUNTER_MAX_def)
  from a evolves_raise [OF this] show ?thesis by (rule evolves_trans)
qed

lemma startwrite_step_evolves:
  "evolves W_startwrite (counts b) (counts (step_state (startwrite_step b offset ok)))"
proof -
  obtain r blocks c where g: "bitmap_get_counter (counts b) offset True ok = (r, blocks, c)"
    by (metis prod_cases3)
  note e0 = evolves_get_counter [OF g, of W_startwrite]
  show ?thesis
  proof (cases r)
    case None
    then show ?thesis using e0 by (simp add: startwrite_step_def g)
  next
    case (Some bmc)
    show ?thesis
    proof (cases "COUNTER (deref c bmc) = COUNTER_MAX")
      case True
      then show ?thesis using e0 by (simp add: startwrite_step_def g Some)
    next
      case nmax: False
      consider (zero) "deref c bmc = 0" | (one) "deref c bmc = 1"
        | (more) "deref c bmc \<noteq> 0" "deref c bmc \<noteq> 1" by blast
      then show ?thesis
      proof cases
        case zero
        have "evolves W_startwrite c (bitmap_count_page c offset 1)"
          by (rule evolves_count_page)
        from this evolves_set2_raise
        have "evolves W_startwrite c
                (assign (assign (bitmap_count_page c offset 1) bmc 2) bmc
                   (deref (assign (bitmap_count_page c offset 1) bmc 2) bmc + 1))"
          by (rule evolves_trans)
        with e0 have "evolves W_startwrite (counts b)
                (assign (assign (bitmap_count_page c offset 1) bmc 2) bmc
                   (deref (assign (bitmap_count_page c offset 1) bmc 2) bmc + 1))"
          by (rule evolves_trans)
        then show ?thesis
          using zero nmax
          by (simp add: startwrite_step_def g Some Let_def del: deref.simps assign.simps)
      next
        case one
        from e0 evolves_set2_raise
        have "evolves W_startwrite (counts b)
                (assign (assign c bmc 2) bmc (deref (assign c bmc 2) bmc + 1))"
          by (rule evolves_trans)
        then show ?thesis
          using one nmax
          by (simp add: startwrite_step_def g Some Let_def del: deref.simps assign.simps)
      next
        case more
        from e0 evolves_raise [OF nmax]
        have "evolves W_startwrite (counts b) (assign c bmc (deref c bmc + 1))"
          by (rule evolves_trans)
        then show ?thesis
          using more nmax
          by (simp add: startwrite_step_def g Some Let_def del: deref.simps assign.simps)
      qed
    qed
  qed
qed


lemma startwrite_loop_evolves:
  "evolves W_startwrite (counts b) (counts (outcome_state (startwrite_loop b offset sectors kz)))"
proof (induction b offset sectors kz rule: startwrite_loop.induct)
  case (1 bitmap offset sectors kz)
  show ?case
  proof (cases "sectors = 0")
    case True
    then show ?thesis by (simp add: startwrite_loop.simps [of bitmap])
  next
    case False
    note e = startwrite_step_evolves [of bitmap offset "kz 0"]
    show ?thesis
    proof (cases "startwrite_step bitmap offset (kz 0)")
      case (Step_null b)
      then show ?thesis using e False by (simp add: startwrite_loop.simps [of bitmap])
    next
      case (Step_wait b)
      then show ?thesis using e False by (simp add: startwrite_loop.simps [of bitmap])
    next
      case (Step_done b' blocks)
      from e "1" [OF False Step_done] Step_done False show ?thesis
        by (auto simp: startwrite_loop.simps [of bitmap] split: if_splits intro: evolves_trans)
    qed
  qed
qed

lemma behind_counts:
  "counts (startwrite_behind b behind) = counts b"
  "counts (endwrite_behind b behind) = counts b"
  by (simp_all add: startwrite_behind_def endwrite_behind_def Let_def)

lemma bitmap_startwrite_evolves:
  "evolves W_startwrite (counts b)
     (counts (outcome_state (bitmap_startwrite b offset sectors behind kz)))"
  using startwrite_loop_evolves [of "startwrite_behind b behind" offset sectors kz]
  by (simp add: bitmap_startwrite_def behind_counts)

lemma endwrite_step_counts:
  assumes g: "bitmap_get_counter (counts b) offset False False = (Some bmc, blocks, c)"
  shows "counts (step_state (endwrite_step b offset success)) =
    (let c3 = (if \<not> success \<and> \<not> NEEDED (deref (counts b) bmc)
               then assign (counts b) bmc (deref (counts b) bmc OR NEEDED_MASK)
               else counts b);
         c5 = assign c3 bmc (deref c3 bmc - 1)
     in if deref c5 bmc \<le> 2 then bitmap_set_pending c5 offset else c5)"
proof -
  have c: "c = counts b" using g by (rule get_counter_nocreate)
  have g': "bitmap_get_counter (counts b) offset False False = (Some bmc, blocks, counts b)"
    using g c by simp
  show ?thesis
  proof (cases "\<not> success \<and> \<not> NEEDED (deref (counts b) bmc)")
    case True
    define c3 where "c3 = assign (counts b) bmc (deref (counts b) bmc OR NEEDED_MASK)"
    show ?thesis
      using True
      by (cases "COUNTER (deref c3 bmc) = COUNTER_MAX";
          cases "deref (assign c3 bmc (deref c3 bmc - 1)) bmc \<le> 2")
         (simp_all add: endwrite_step_def g' Let_def c3_def [symmetric]
            del: deref.simps assign.simps)
  next
    case False
    show ?thesis
      using False
      by (cases success;
          cases "md_degraded (mddev b) = 0 \<and> events_cleared b < md_events (mddev b)";
          cases "COUNTER (deref (counts b) bmc) = COUNTER_MAX";
          cases "deref (assign (counts b) bmc (deref (counts b) bmc - 1)) bmc \<le> 2")
         (simp_all add: endwrite_step_def g' Let_def del: deref.simps assign.simps)
  qed
qed

lemma endwrite_step_evolves:
  "evolves W_endwrite (counts b) (counts (step_state (endwrite_step b offset success)))"
proof -
  obtain r blocks c where g: "bitmap_get_counter (counts b) offset False False = (r, blocks, c)"
    by (metis prod_cases3)
  have c: "c = counts b" using g by (rule get_counter_nocreate)
  show ?thesis
  proof (cases r)
    case None
    then show ?thesis by (simp add: endwrite_step_def g c)
  next
    case (Some bmc)
    define c3 where "c3 = (if \<not> success \<and> \<not> NEEDED (deref (counts b) bmc)
                           then assign (counts b) bmc (deref (counts b) bmc OR NEEDED_MASK)
                           else counts b)"
    define c5 where "c5 = assign c3 bmc (deref c3 bmc - 1)"
    define c6 where "c6 = (if deref c5 bmc \<le> 2 then bitmap_set_pending c5 offset else c5)"
    have e3: "evolves W_endwrite (counts b) c3"
      by (auto simp: c3_def W_endwrite_def intro!: evolves_assign)
    have e5: "evolves W_endwrite c3 c5"
      unfolding c5_def by (intro evolves_assign) (simp add: W_endwrite_def)
    have e6: "evolves W_endwrite c5 c6"
      by (auto simp: c6_def intro: evolves_set_pending)
    have e: "evolves W_endwrite (counts b) c6"
      using e3 e5 e6 by (blast intro: evolves_trans)
    have "counts (step_state (endwrite_step b offset success)) = c6"
      unfolding endwrite_step_counts [OF g [unfolded Some]] c6_def c5_def c3_def Let_def ..
    with e show ?thesis by simp
  qed
qed

lemma endwrite_loop_evolves:
  "evolves W_endwrite (counts b) (counts (endwrite_loop b offset sectors success))"
proof (induction b offset sectors success rule: endwrite_loop.induct)
  case (1 bitmap offset sectors success)
  show ?case
  proof (cases "sectors = 0")
    case True
    then show ?thesis by (simp add: endwrite_loop.simps [of bitmap])
  next
    case False
    note e = endwrite_step_evolves [of bitmap offset success]
    show ?thesis
    proof (cases "endwrite_step bitmap offset success")
      case (Step_null b)
      then show ?thesis using e False by (simp add: endwrite_loop.simps [of bitmap])
    next
      case (Step_wait b)
      then show ?thesis using e False by (simp add: endwrite_loop.simps [of bitmap])
    next
      case (Step_done b' blocks)
      from e "1" [OF False Step_done] Step_done False show ?thesis
        by (auto simp: endwrite_loop.simps [of bitmap] split: if_splits intro: evolves_trans)
    qed
  qed
qed

lemma bitmap_endwrite_evolves:
  "evolves W_endwrite (counts b) (counts (bitmap_endwrite b offset sectors success behind))"
  using endwrite_loop_evolves [of "endwrite_behind b behind" offset sectors success]
  by (simp add: bitmap_endwrite_def behind_counts)

lemma set_memory_bits_evolves:
  "evolves W_mark (counts b) (counts (bitmap_set_memory_bits b offset needed ok))"
proof -
  obtain r blocks c where g: "bitmap_get_counter (counts b) offset True ok = (r, blocks, c)"
    by (metis prod_cases3)
  note e0 = evolves_get_counter [OF g, of W_mark]
  show ?thesis
  proof (cases r)
    case None
    then show ?thesis using e0 by (simp add: bitmap_set_memory_bits_def g)
  next
    case (Some bmc)
    show ?thesis
    proof (cases "deref c bmc = 0")
      case True
      have "evolves W_mark c (assign c bmc (2 OR (if needed then NEEDED_MASK else 0)))"
        by (intro evolves_assign) (simp add: W_mark_def)
      with e0 have "evolves W_mark (counts b)
          (assign c bmc (2 OR (if needed then NEEDED_MASK else 0)))"
        by (rule evolves_trans)
      from this evolves_count_page have "evolves W_mark (counts b)
          (bitmap_count_page (assign c bmc (2 OR (if needed then NEEDED_MASK else 0))) offset 1)"
        by (rule evolves_trans)
      from this evolves_set_pending have "evolves W_mark (counts b)
          (bitmap_set_pending
            (bitmap_count_page (assign c bmc (2 OR (if needed then NEEDED_MASK else 0))) offset 1)
            offset)"
        by (rule evolves_trans)
      then show ?thesis
        using True
        by (simp add: bitmap_set_memory_bits_def g Some Let_def del: deref.simps assign.simps)
    next
      case False
      then show ?thesis using e0 by (simp add: bitmap_set_memory_bits_def g Some)
    qed
  qed
qed

text \<open>Writing pages and moving attributes leave the counter map alone.\<close>

lemma write_page_counts [simp]:
  "counts (write_page b page wait) = counts b"
  "counts (bitmap_file_kick b) = counts b"
  "counts (bitmap_update_sb b) = counts b"
  using io_frame_write_page_kick_update_sb(1) [of b page wait]
    io_frame_write_page_kick_update_sb(2) [of b]
    io_frame_write_page_kick_update_sb(3) [of b]
  by (simp_all add: io_frame_def)

lemma wait_pending_writes_counts [simp]: "counts (wait_pending_writes b) = counts b"
  using io_frame_wait_pending_writes [of b] by (simp add: io_frame_def)

lemma page_attr_counts [simp]:
  "counts (set_page_attr b pnum attr) = counts b"
  "counts (clear_page_attr b pnum attr) = counts b"
  by (simp_all add: set_page_attr_def clear_page_attr_def)

lemma unplug_page_counts: "unplug_page b i = (b', d) \<Longrightarrow> counts b' = counts b"
  by (auto simp: unplug_page_def test_and_clear_page_attr_def split: if_splits)

lemma unplug_loop_counts:
  "counts (case unplug_loop b i wait of Inl b' \<Rightarrow> b' | Inr (b', w) \<Rightarrow> b') = counts b"
proof (induction b i wait rule: unplug_loop.induct)
  case (1 bitmap i wait)
  show ?case
  proof (cases "i < file_pages (storage bitmap) \<and> filemap (storage bitmap) \<noteq> None")
    case False
    then show ?thesis by (auto simp: unplug_loop.simps [of bitmap])
  next
    case True
    obtain b' d where u: "unplug_page bitmap i = (b', d)" by (cases "unplug_page bitmap i") auto
    from True have t: "i < file_pages (storage bitmap)" "filemap (storage bitmap) \<noteq> None"
      by auto
    from "1" [OF t u [symmetric]] unplug_page_counts [OF u] True u
    show ?thesis by (simp add: unplug_loop.simps [of bitmap])
  qed
qed

lemma bitmap_unplug_counts [simp]: "counts (bitmap_unplug b) = counts b"
proof (cases "filemap (storage b) = None \<or> BITMAP_STALE \<in> flags b")
  case True
  then show ?thesis by (auto simp: bitmap_unplug_def)
next
  case False
  show ?thesis
  proof (cases "unplug_loop b 0 False")
    case (Inl b')
    with unplug_loop_counts [of b 0 False] False show ?thesis
      by (simp add: bitmap_unplug_def)
  next
    case (Inr p)
    obtain b' w where p: "p = (b', w)" by (cases p) auto
    with unplug_loop_counts [of b 0 False] Inr False show ?thesis
      by (simp add: bitmap_unplug_def Let_def)
  qed
qed

lemma daemon_pending_counts [simp]: "counts (daemon_pending b j) = counts b"
proof (induction b j rule: daemon_pending.induct)
  case (1 bitmap j)
  show ?case
  proof (cases "j < file_pages (storage bitmap)")
    case False
    then show ?thesis by (simp add: daemon_pending.simps [of bitmap])
  next
    case True
    show ?thesis
    proof (cases "test_page_attr bitmap j BITMAP_PAGE_PENDING")
      case t: True
      from "1"(1) [OF True, of True "clear_page_attr bitmap j BITMAP_PAGE_PENDING"] True t
      show ?thesis
        by (simp add: daemon_pending.simps [of bitmap] test_and_clear_page_attr_def)
    next
      case f: False
      from "1"(2) [OF True, of False "clear_page_attr bitmap j BITMAP_PAGE_PENDING"] True f
      show ?thesis
        by (simp add: daemon_pending.simps [of bitmap] test_and_clear_page_attr_def)
    qed
  qed
qed

lemma daemon_writeout_counts [simp]: "counts (daemon_writeout b j) = counts b"
proof (induction b j rule: daemon_writeout.induct)
  case (1 bitmap j)
  show ?case
  proof (cases "j < file_pages (storage bitmap) \<and> BITMAP_STALE \<notin> flags bitmap \<and>
                \<not> test_page_attr bitmap j BITMAP_PAGE_DIRTY")
    case False
    then show ?thesis by (auto simp: daemon_writeout.simps [of bitmap])
  next
    case True
    then have t: "j < file_pages (storage bitmap) \<and> BITMAP_STALE \<notin> flags bitmap"
      "\<not> test_page_attr bitmap j BITMAP_PAGE_DIRTY" by auto
    show ?thesis
    proof (cases "test_page_attr bitmap j BITMAP_PAGE_NEEDWRITE")
      case n: True
      from "1"(1) [OF t, of True "clear_page_attr bitmap j BITMAP_PAGE_NEEDWRITE"] t n
      show ?thesis
        by (simp add: daemon_writeout.simps [of bitmap] test_and_clear_page_attr_def)
    next
      case n: False
      from "1"(2) [OF t, of False "clear_page_attr bitmap j BITMAP_PAGE_NEEDWRITE"] t n
      show ?thesis
        by (simp add: daemon_writeout.simps [of bitmap] test_and_clear_page_attr_def)
    qed
  qed
qed

lemma daemon_done_counts [simp]: "counts (daemon_done b) = counts b"
  by (simp add: daemon_done_def)

lemma daemon_stamp_sb_counts [simp]: "counts (daemon_stamp_sb b) = counts b"
  by (simp add: daemon_stamp_sb_def Let_def)


lemma daemon_visit_evolves:
  "evolves W_mark (counts b) (counts (daemon_visit b block bmc))"
proof -
  have a0: "evolves W_mark (counts b) (assign (counts b) bmc 0)"
    by (intro evolves_assign) (simp add: W_mark_def)
  have a1: "evolves W_mark (counts b) (assign (counts b) bmc 1)"
    by (intro evolves_assign) (simp add: W_mark_def)
  from a0 evolves_count_page
  have e0: "evolves W_mark (counts b) (bitmap_count_page (assign (counts b) bmc 0) block (- 1))"
    by (rule evolves_trans)
  from a1 evolves_set_pending
  have e1: "evolves W_mark (counts b) (bitmap_set_pending (assign (counts b) bmc 1) block)"
    by (rule evolves_trans)
  show ?thesis
    using e0 e1 by (simp add: daemon_visit_def Let_def del: deref.simps assign.simps)
qed

lemma daemon_chunk_evolves:
  assumes d: "daemon_chunk b j nextpage = (b', j', nextpage')"
  shows "evolves W_mark (counts b) (counts b')"
proof (cases "j = nextpage \<and> \<not> pending (bp (counts b) (drop_bit PAGE_COUNTER_SHIFT j))")
  case True
  with d show ?thesis by (auto simp: daemon_chunk_def Let_def)
next
  case False
  define b1 where "b1 = (if j = nextpage
                           then b\<lparr>counts := (counts b)
                                  \<lparr>bp := (bp (counts b))
                                     (drop_bit PAGE_COUNTER_SHIFT j :=
                                        (bp (counts b) (drop_bit PAGE_COUNTER_SHIFT j))
                                          \<lparr>pending := False\<rparr>)\<rparr>\<rparr>
                           else b)"
  have e1: "evolves W_mark (counts b) (counts b1)"
    by (auto simp: b1_def intro: evolves_step step_pending)
  obtain r blocks c where g: "bitmap_get_counter (counts b1)
      (push_bit (chunkshift (counts b)) j) False False = (r, blocks, c)"
    by (metis prod_cases3)
  have c: "c = counts b1" using g by (rule get_counter_nocreate)
  show ?thesis
  proof (cases r)
    case None
    with d False g c e1 show ?thesis
      by (auto simp: daemon_chunk_def Let_def b1_def [symmetric])
  next
    case (Some bmc)
    have "b1\<lparr>counts := c\<rparr> = b1" by (simp add: c)
    with d False g Some
    have "b' = daemon_visit b1 (push_bit (chunkshift (counts b)) j) bmc"
      by (auto simp: daemon_chunk_def Let_def b1_def [symmetric])
    with e1 daemon_visit_evolves [of b1] show ?thesis
      by (auto intro: evolves_trans)
  qed
qed

lemma daemon_counters_evolves:
  "evolves W_mark (counts b) (counts (daemon_counters b j nextpage))"
proof (induction b j nextpage rule: daemon_counters.induct)
  case (1 bitmap j nextpage)
  show ?case
  proof (cases "j < chunks (counts bitmap)")
    case False
    then show ?thesis by (simp add: daemon_counters.simps [of bitmap])
  next
    case True
    obtain b' j' np' where e: "daemon_chunk bitmap j nextpage = (b', j', np')"
      by (metis prod_cases3)
    from daemon_chunk_evolves [OF e] "1" [OF True e [symmetric] refl]
    have "evolves W_mark (counts bitmap) (counts (daemon_counters b' j' np'))"
      by (rule evolves_trans)
    with True e show ?thesis by (simp add: daemon_counters.simps [of bitmap])
  qed
qed

lemma bitmap_daemon_work_evolves:
  "evolves W_mark (counts b) (counts (bitmap_daemon_work b jiffies))"
  using daemon_counters_evolves
    [of "daemon_stamp_sb (daemon_pending (b\<lparr>daemon_lastrun := jiffies, allclean := True\<rparr>) 0)" 0 0]
  by (simp add: bitmap_daemon_work_def Let_def)


lemma resize_set_bits_counts [simp]:
  "counts (resize_set_bits b block start end_sector) = counts b"
proof (induction b block start end_sector rule: resize_set_bits.induct)
  case (1 bitmap block start end_sector)
  show ?case
  proof (cases "start < end_sector")
    case True
    with "1" [OF True] show ?thesis by (simp add: resize_set_bits.simps [of bitmap])
  next
    case False
    then show ?thesis by (simp add: resize_set_bits.simps [of bitmap])
  qed
qed

lemma resize_dirty_all_counts [simp]: "counts (resize_dirty_all b n) = counts b"
  by (induction n) simp_all

lemma evolves_mark_new:
  "evolves W_mark c
     (bitmap_set_pending (bitmap_count_page (assign c x 2) block 1) block)"
proof -
  have "evolves W_mark c (assign c x 2)"
    by (intro evolves_assign) (simp add: W_mark_def)
  from this evolves_count_page
  have "evolves W_mark c (bitmap_count_page (assign c x 2) block 1)"
    by (rule evolves_trans)
  from this evolves_set_pending show ?thesis by (rule evolves_trans)
qed

lemma evolves_or_needed:
  "evolves W_mark c (assign c x (deref c x OR NEEDED_MASK))"
  by (intro evolves_assign) (simp add: W_mark_def)

lemma resize_overlap_step_evolves:
  assumes s: "resize_overlap_step oc b block ok = (b', n)"
  shows "evolves W_mark (counts b) (counts b')"
proof -
  obtain ro ob oc' where go: "bitmap_get_counter oc block False False = (ro, ob, oc')"
    by (metis prod_cases3)
  show ?thesis
  proof (cases "case ro of None \<Rightarrow> False | Some p \<Rightarrow> NEEDED (deref oc p)")
    case False
    with s go show ?thesis by (simp add: resize_overlap_step_def)
  next
    case True
    obtain r nb c where g: "bitmap_get_counter (counts b) block True ok = (r, nb, c)"
      by (metis prod_cases3)
    note e0 = evolves_get_counter [OF g, of W_mark]
    show ?thesis
    proof (cases r)
      case None
      with s go True g e0 show ?thesis by (auto simp: resize_overlap_step_def)
    next
      case (Some bmc)
      define c2 where "c2 = (if deref c bmc = 0
          then bitmap_set_pending (bitmap_count_page (assign c bmc 2) block 1) block else c)"
      have e2: "evolves W_mark c c2"
        using evolves_mark_new [of c bmc block] by (simp add: c2_def)
      have e3: "evolves W_mark c2 (assign c2 bmc (deref c2 bmc OR NEEDED_MASK))"
        by (rule evolves_or_needed)
      have e: "evolves W_mark (counts b) (assign c2 bmc (deref c2 bmc OR NEEDED_MASK))"
        using e0 e2 e3 by (blast intro: evolves_trans)
      have "counts b' = assign c2 bmc (deref c2 bmc OR NEEDED_MASK)"
        using s go True g Some
        by (cases "deref c bmc = 0")
           (auto simp: resize_overlap_step_def Let_def c2_def simp del: deref.simps assign.simps)
      with e show ?thesis by simp
    qed
  qed
qed

lemma resize_overlap_evolves:
  "evolves W_mark (counts b) (counts (fst (resize_overlap oc b blocks block kz)))"
proof (induction oc b blocks block kz rule: resize_overlap.induct)
  case (1 old_counts bitmap blocks block kz)
  show ?case
  proof (cases "block < blocks")
    case False
    then show ?thesis by (simp add: resize_overlap.simps [of old_counts bitmap])
  next
    case True
    obtain b' n where e: "resize_overlap_step old_counts bitmap block (kz 0) = (b', n)"
      by (cases "resize_overlap_step old_counts bitmap block (kz 0)") auto
    from resize_overlap_step_evolves [OF e] "1" [OF True e [symmetric]]
    have "evolves W_mark (counts bitmap)
        (counts (fst (resize_overlap old_counts b' blocks (block + n) (\<lambda>i. kz (Suc i)))))"
      by (rule evolves_trans)
    with True e show ?thesis by (simp add: resize_overlap.simps [of old_counts bitmap])
  qed
qed

lemma resize_beyond_step_evolves:
  assumes s: "resize_beyond_step b block ok = (b', n)"
  shows "evolves W_mark (counts b) (counts b')"
proof -
  obtain r nb c where g: "bitmap_get_counter (counts b) block True ok = (r, nb, c)"
    by (metis prod_cases3)
  note e0 = evolves_get_counter [OF g, of W_mark]
  show ?thesis
  proof (cases r)
    case None
    with s g e0 show ?thesis by (auto simp: resize_beyond_step_def)
  next
    case (Some bmc)
    show ?thesis
    proof (cases "deref c bmc = 0")
      case False
      with s g e0 Some show ?thesis by (auto simp: resize_beyond_step_def)
    next
      case True
      have "evolves W_mark c (assign c bmc (NEEDED_MASK OR 2))"
        by (intro evolves_assign) (simp add: W_mark_def)
      from this evolves_count_page
      have "evolves W_mark c (bitmap_count_page (assign c bmc (NEEDED_MASK OR 2)) block 1)"
        by (rule evolves_trans)
      from this evolves_set_pending
      have "evolves W_mark c (bitmap_set_pending
              (bitmap_count_page (assign c bmc (NEEDED_MASK OR 2)) block 1) block)"
        by (rule evolves_trans)
      with e0 have "evolves W_mark (counts b) (bitmap_set_pending
              (bitmap_count_page (assign c bmc (NEEDED_MASK OR 2)) block 1) block)"
        by (rule evolves_trans)
      with s g Some True show ?thesis
        by (auto simp: resize_beyond_step_def Let_def simp del: deref.simps assign.simps)
    qed
  qed
qed

lemma resize_beyond_evolves:
  "evolves W_mark (counts b) (counts (resize_beyond b block kz))"
proof (induction b block kz rule: resize_beyond.induct)
  case (1 bitmap block kz)
  show ?case
  proof (cases "block < push_bit (chunkshift (counts bitmap)) (chunks (counts bitmap))")
    case False
    then show ?thesis by (simp add: resize_beyond.simps [of bitmap])
  next
    case True
    obtain b' n where e: "resize_beyond_step bitmap block (kz 0) = (b', n)"
      by (cases "resize_beyond_step bitmap block (kz 0)") auto
    from resize_beyond_step_evolves [OF e] "1" [OF True e [symmetric]]
    have "evolves W_mark (counts bitmap)
        (counts (resize_beyond b' (block + n) (\<lambda>i. kz (Suc i))))"
      by (rule evolves_trans)
    with True e show ?thesis by (simp add: resize_beyond.simps [of bitmap])
  qed
qed

lemma resize_counts_evolves:
  "evolves W_mark (counts b) (counts (resize_counts b npages cshift nchunks init kz))"
proof -
  define b1 where "b1 = b\<lparr>counts := \<lparr>bp = (\<lambda>page. zero_page_slot), pages = npages,
                                      missing_pages = of_nat npages, chunkshift = cshift,
                                      chunks = nchunks\<rparr>,
                           mddev := (mddev b)
                             \<lparr>bi_chunksize := push_bit (cshift + BITMAP_BLOCK_SHIFT) 1\<rparr>\<rparr>"
  define blocks where "blocks = min (push_bit (chunkshift (counts b)) (chunks (counts b)))
                       (push_bit cshift nchunks)"
  have e1: "evolves W_mark (counts b) (counts b1)"
    by (simp add: b1_def evolves_step step_table)
  obtain b2 block kz' where r: "resize_overlap (counts b) b1 blocks 0 kz = (b2, block, kz')"
    by (metis prod_cases3)
  from resize_overlap_evolves [of b1 "counts b" blocks 0 kz] r
  have e2: "evolves W_mark (counts b1) (counts b2)" by simp
  have e3: "evolves W_mark (counts b2) (counts (resize_beyond b2 block kz'))"
    by (rule resize_beyond_evolves)
  have "counts (resize_counts b npages cshift nchunks init kz) =
          (if \<not> init then counts (resize_beyond b2 block kz') else counts b2)"
    unfolding resize_counts_def Let_def b1_def [symmetric] blocks_def [symmetric] r
    by simp
  with e1 e2 e3 show ?thesis by (auto intro: evolves_trans)
qed

lemma bitmap_resize_evolves:
  assumes "bitmap_resize b blocks csize init storage_ok bp_ok kz = Some r"
  shows "evolves W_mark (counts b) (counts (case r of Inl (e, b') \<Rightarrow> b' | Inr b' \<Rightarrow> b'))"
proof -
  have e: "evolves W_mark (counts b) (counts (resize_counts b0 npages cshift nchunks i kz))"
    if "counts b0 = counts b" for b0 npages cshift nchunks i
    using resize_counts_evolves [of b0 npages cshift nchunks i kz] that by simp
  show ?thesis
    using assms
    by (auto simp: bitmap_resize_def Let_def split: option.splits if_splits intro!: e)
qed

definition W_sync :: "bitmap_counter_t \<Rightarrow> bitmap_counter_t \<Rightarrow> bool" where
  "W_sync old new = (COUNTER new = COUNTER old)"

lemma COUNTER_sync_bits:
  "COUNTER (v OR RESYNC_MASK) = COUNTER v"
  "COUNTER (v AND NOT RESYNC_MASK) = COUNTER v"
  "COUNTER (v AND NOT NEEDED_MASK) = COUNTER v"
proof -
  have a: "(RESYNC_MASK :: 16 word) AND 0x3FFF = 0" "NOT RESYNC_MASK AND 0x3FFF = (0x3FFF :: 16 word)"
    "NOT NEEDED_MASK AND 0x3FFF = (0x3FFF :: 16 word)"
    by (simp_all add: RESYNC_MASK_def NEEDED_MASK_def)
  show "COUNTER (v OR RESYNC_MASK) = COUNTER v"
    by (simp add: COUNTER_def bit.conj_disj_distrib2 a)
  show "COUNTER (v AND NOT RESYNC_MASK) = COUNTER v"
    by (simp add: COUNTER_def and.assoc a)
  show "COUNTER (v AND NOT NEEDED_MASK) = COUNTER v"
    by (simp add: COUNTER_def and.assoc a)
qed

lemma start_sync_step_evolves:
  assumes s: "bitmap_start_sync_step b offset degraded = (rv, blocks, b')"
  shows "evolves W_sync (counts b) (counts b')"
proof -
  obtain r nb c where g: "bitmap_get_counter (counts b) offset False False = (r, nb, c)"
    by (metis prod_cases3)
  have c: "c = counts b" using g by (rule get_counter_nocreate)
  show ?thesis
  proof (cases r)
    case None
    with s g c show ?thesis by (auto simp: bitmap_start_sync_step_def)
  next
    case (Some bmc)
    define c2 where "c2 = assign c bmc (deref c bmc OR RESYNC_MASK)"
    have e2: "evolves W_sync c c2"
      unfolding c2_def by (intro evolves_assign) (simp add: W_sync_def COUNTER_sync_bits)
    have e3: "evolves W_sync c2 (assign c2 bmc (deref c2 bmc AND NOT NEEDED_MASK))"
      by (intro evolves_assign) (simp add: W_sync_def COUNTER_sync_bits)
    from e2 e3 have e: "evolves W_sync c (assign c2 bmc (deref c2 bmc AND NOT NEEDED_MASK))"
      by (rule evolves_trans)
    from s g Some have "counts b' = c \<or> counts b' = assign c2 bmc (deref c2 bmc AND NOT NEEDED_MASK)"
      by (auto simp: bitmap_start_sync_step_def Let_def c2_def split: if_splits
          simp del: deref.simps assign.simps)
    with e show ?thesis unfolding c by auto
  qed
qed

lemma start_sync_loop_evolves:
  "evolves W_sync (counts b) (counts (snd (snd (start_sync_loop b offset degraded blocks rv))))"
proof (induction b offset degraded blocks rv rule: start_sync_loop.induct)
  case (1 bitmap offset degraded blocks rv)
  show ?case
  proof (cases "blocks < drop_bit 9 PAGE_SIZE")
    case False
    then show ?thesis by (simp add: start_sync_loop.simps [of bitmap])
  next
    case True
    obtain rv1 blocks1 b' where e: "bitmap_start_sync_step bitmap offset degraded = (rv1, blocks1, b')"
      by (metis prod_cases3)
    from start_sync_step_evolves [OF e] "1" [OF True e [symmetric] refl]
    have "evolves W_sync (counts bitmap)
        (counts (snd (snd (start_sync_loop b' (offset + blocks1) degraded (blocks + blocks1)
                             (rv \<or> rv1)))))"
      by (rule evolves_trans)
    with True e show ?thesis by (simp add: start_sync_loop.simps [of bitmap])
  qed
qed

lemma bitmap_start_sync_evolves:
  "evolves W_sync (counts b) (counts (snd (snd (bitmap_start_sync b offset degraded))))"
  unfolding bitmap_start_sync_def by (rule start_sync_loop_evolves)

lemma bitmap_end_sync_evolves:
  "evolves W_sync (counts b) (counts (snd (bitmap_end_sync b offset aborted)))"
proof -
  obtain r nb c where g: "bitmap_get_counter (counts b) offset False False = (r, nb, c)"
    by (metis prod_cases3)
  have c: "c = counts b" using g by (rule get_counter_nocreate)
  show ?thesis
  proof (cases r)
    case None
    with g c show ?thesis by (auto simp: bitmap_end_sync_def)
  next
    case (Some bmc)
    define c2 where "c2 = assign c bmc (deref c bmc AND NOT RESYNC_MASK)"
    have e2: "evolves W_sync c c2"
      unfolding c2_def by (intro evolves_assign) (simp add: W_sync_def COUNTER_sync_bits)
    have "evolves W_sync c2 (assign c2 bmc (deref c2 bmc OR NEEDED_MASK))"
      by (intro evolves_assign) (simp add: W_sync_def or_needed)
    with e2 have e3: "evolves W_sync c (assign c2 bmc (deref c2 bmc OR NEEDED_MASK))"
      by (rule evolves_trans)
    from e2 evolves_set_pending have e4: "evolves W_sync c (bitmap_set_pending c2 offset)"
      by (rule evolves_trans)
    have "counts (snd (bitmap_end_sync b offset aborted)) \<in>
            {c, c2, assign c2 bmc (deref c2 bmc OR NEEDED_MASK), bitmap_set_pending c2 offset}"
      using g Some
      by (auto simp: bitmap_end_sync_def Let_def c2_def split: if_splits
          simp del: deref.simps assign.simps)
    with e2 e3 e4 show ?thesis unfolding c by auto
  qed
qed

lemma close_sync_loop_evolves:
  "evolves W_sync (counts b) (counts (close_sync_loop b sector))"
proof (induction b sector rule: close_sync_loop.induct)
  case (1 bitmap sector)
  show ?case
  proof (cases "sector < md_resync_max_sectors (mddev bitmap)")
    case False
    then show ?thesis by (simp add: close_sync_loop.simps [of bitmap])
  next
    case True
    obtain blocks b' where e: "bitmap_end_sync bitmap sector False = (blocks, b')"
      by (cases "bitmap_end_sync bitmap sector False") auto
    from bitmap_end_sync_evolves [of bitmap sector False] e
    have "evolves W_sync (counts bitmap) (counts b')" by simp
    from this "1" [OF True e [symmetric]]
    have "evolves W_sync (counts bitmap) (counts (close_sync_loop b' (sector + blocks)))"
      by (rule evolves_trans)
    with True e show ?thesis by (simp add: close_sync_loop.simps [of bitmap])
  qed
qed

lemma bitmap_close_sync_evolves:
  "evolves W_sync (counts b) (counts (bitmap_close_sync b))"
  unfolding bitmap_close_sync_def by (rule close_sync_loop_evolves)

lemma bitmap_dirty_bits_evolves:
  "evolves W_mark (counts b) (counts (bitmap_dirty_bits b chunk e kz))"
proof (induction b chunk e kz rule: bitmap_dirty_bits.induct)
  case (1 bitmap chunk e kz)
  show ?case
  proof (cases "chunk \<le> e")
    case False
    then show ?thesis by (simp add: bitmap_dirty_bits.simps [of bitmap])
  next
    case True
    define sec where "sec = push_bit (chunkshift (counts bitmap)) chunk"
    define b1 where "b1 = bitmap_set_memory_bits bitmap sec True (kz 0)"
    define b2 where "b2 = bitmap_file_set_bit b1 sec"
    define b3 where "b3 = (if sec < md_recovery_cp (mddev b2)
                        then b2\<lparr>mddev := (mddev b2)\<lparr>md_recovery_cp := sec\<rparr>\<rparr>
                        else b2)"
    have e3: "evolves W_mark (counts bitmap) (counts b3)"
      using set_memory_bits_evolves [of bitmap sec True "kz 0"]
      by (simp add: b3_def b2_def b1_def)
    from e3 "1" [OF True sec_def b1_def b2_def b3_def]
    have "evolves W_mark (counts bitmap)
            (counts (bitmap_dirty_bits b3 (chunk + 1) e (\<lambda>i. kz (Suc i))))"
      by (rule evolves_trans)
    moreover have "bitmap_dirty_bits bitmap chunk e kz =
        bitmap_dirty_bits b3 (chunk + 1) e (\<lambda>i. kz (Suc i))"
      using True
      unfolding bitmap_dirty_bits.simps [of bitmap] Let_def sec_def b1_def b2_def b3_def
      by simp
    ultimately show ?thesis by simp
  qed
qed

section \<open>Reachable states\<close>

text \<open>
  The states that the operations of the engine reach from a bitmap whose table
  of page slots is zeroed, as \<^verbatim>\<open>kzalloc\<close> leaves it in \<^verbatim>\<open>bitmap_create\<close> and in
  \<^verbatim>\<open>bitmap_resize\<close>. Every call is allowed in every state, with any arguments.
  A thread that sleeps in \<^verbatim>\<open>bitmap_startwrite\<close> goes on with the loop when it is
  woken (\<open>resumed\<close>).
\<close>

inductive reachable :: "bitmap \<Rightarrow> bool" where
    created: "bp (counts b) = (\<lambda>page. zero_page_slot) \<Longrightarrow> reachable b"
  | startwrite: "reachable b \<Longrightarrow>
      reachable (outcome_state (bitmap_startwrite b offset sectors behind kz))"
  | resumed: "reachable b \<Longrightarrow>
      reachable (outcome_state (startwrite_loop b offset sectors kz))"
  | endwrite: "reachable b \<Longrightarrow>
      reachable (bitmap_endwrite b offset sectors success behind)"
  | start_sync: "reachable b \<Longrightarrow>
      reachable (snd (snd (bitmap_start_sync b offset degraded)))"
  | end_sync: "reachable b \<Longrightarrow> reachable (snd (bitmap_end_sync b offset aborted))"
  | close_sync: "reachable b \<Longrightarrow> reachable (bitmap_close_sync b)"
  | daemon_work: "reachable b \<Longrightarrow> reachable (bitmap_daemon_work b jiffies)"
  | unplug: "reachable b \<Longrightarrow> reachable (bitmap_unplug b)"
  | update_sb: "reachable b \<Longrightarrow> reachable (bitmap_update_sb b)"
  | dirty_bits: "reachable b \<Longrightarrow> reachable (bitmap_dirty_bits b s e kz)"
  | resize_failed: "reachable b \<Longrightarrow>
      bitmap_resize b blocks csize init storage_ok bp_ok kz = Some (Inl (err, b')) \<Longrightarrow>
      reachable b'"
  | resize: "reachable b \<Longrightarrow>
      bitmap_resize b blocks csize init storage_ok bp_ok kz = Some (Inr b') \<Longrightarrow>
      reachable b'"

definition W_any :: "bitmap_counter_t \<Rightarrow> bitmap_counter_t \<Rightarrow> bool" where
  "W_any old new = True"

lemma evolves_any: "evolves W c c' \<Longrightarrow> evolves W_any c c'"
  by (erule evolves_mono) (simp add: W_any_def)

text \<open>
  An invariant of the counter map holds in every reachable state when the
  zeroed table has it and the steps keep it.
\<close>

lemma reachable_counts_invariant:
  assumes r: "reachable b"
    and init: "\<And>b :: bitmap. bp (counts b) = (\<lambda>page. zero_page_slot) \<Longrightarrow> I (counts b)"
    and pres: "\<And>c c'. I c \<Longrightarrow> evolves W_any c c' \<Longrightarrow> I c'"
  shows "I (counts b)"
  using r
proof (induction rule: reachable.induct)
  case (created b)
  then show ?case by (rule init)
next
  case (startwrite b offset sectors behind kz)
  from startwrite.IH evolves_any [OF bitmap_startwrite_evolves] show ?case by (rule pres)
next
  case (resumed b offset sectors kz)
  from resumed.IH evolves_any [OF startwrite_loop_evolves] show ?case by (rule pres)
next
  case (endwrite b offset sectors success behind)
  from endwrite.IH evolves_any [OF bitmap_endwrite_evolves] show ?case by (rule pres)
next
  case (start_sync b offset degraded)
  from start_sync.IH evolves_any [OF bitmap_start_sync_evolves] show ?case by (rule pres)
next
  case (end_sync b offset aborted)
  from end_sync.IH evolves_any [OF bitmap_end_sync_evolves] show ?case by (rule pres)
next
  case (close_sync b)
  from close_sync.IH evolves_any [OF bitmap_close_sync_evolves] show ?case by (rule pres)
next
  case (daemon_work b jiffies)
  from daemon_work.IH evolves_any [OF bitmap_daemon_work_evolves] show ?case by (rule pres)
next
  case (unplug b)
  then show ?case by simp
next
  case (update_sb b)
  then show ?case by simp
next
  case (dirty_bits b s e kz)
  from dirty_bits.IH evolves_any [OF bitmap_dirty_bits_evolves] show ?case by (rule pres)
next
  case (resize_failed b blocks csize init storage_ok bp_ok kz err b')
  from bitmap_resize_evolves [OF resize_failed.hyps(2)]
  have "evolves W_any (counts b) (counts b')" by (auto intro: evolves_any)
  with resize_failed.IH show ?case by (rule pres)
next
  case (resize b blocks csize init storage_ok bp_ok kz b')
  from bitmap_resize_evolves [OF resize.hyps(2)]
  have "evolves W_any (counts b) (counts b')" by (auto intro: evolves_any)
  with resize.IH show ?case by (rule pres)
qed

lemma reachable_hijacked_no_map:
  assumes "reachable b"
  shows "hijacked_no_map (counts b)"
proof (rule reachable_counts_invariant [where I = hijacked_no_map, OF assms])
  fix b :: bitmap
  assume "bp (counts b) = (\<lambda>page. zero_page_slot)"
  then show "hijacked_no_map (counts b)"
    by (simp add: hijacked_no_map_def zero_page_slot_def)
next
  fix c c'
  assume "hijacked_no_map c" "evolves W_any c c'"
  then show "hijacked_no_map c'" by (auto intro: hijacked_no_map_evolves)
qed

section \<open>Writes to one chunk\<close>

lemma startwrite_step_counts:
  assumes g: "bitmap_get_counter (counts b) offset True ok = (Some bmc, blocks, c)"
    and unsat: "COUNTER (deref c bmc) \<noteq> COUNTER_MAX"
  shows "\<exists>b'. startwrite_step b offset ok = Step_done b' blocks \<and>
     counts b' =
       (let c2 = (if deref c bmc = 0 then assign (bitmap_count_page c offset 1) bmc 2
                  else if deref c bmc = 1 then assign c bmc 2 else c)
        in assign c2 bmc (deref c2 bmc + 1))"
proof -
  consider (zero) "deref c bmc = 0" | (one) "deref c bmc = 1"
    | (more) "deref c bmc \<noteq> 0" "deref c bmc \<noteq> 1" by blast
  then show ?thesis
  proof cases
    case zero
    then show ?thesis
      using unsat by (simp add: startwrite_step_def g Let_def del: deref.simps assign.simps)
  next
    case one
    then show ?thesis
      using unsat by (simp add: startwrite_step_def g Let_def del: deref.simps assign.simps)
  next
    case more
    then show ?thesis
      using unsat by (simp add: startwrite_step_def g Let_def del: deref.simps assign.simps)
  qed
qed

text \<open>A lookup with \<^verbatim>\<open>create\<close> in range finds the counter that covers the sector.\<close>

lemma get_counter_create_value:
  assumes r: "page_of c0 offset < pages c0"
  shows "\<exists>blocks c. bitmap_get_counter c0 offset True ok = (Some (bmc_of c offset), blocks, c) \<and>
           deref c (bmc_of c offset) = counter_value c0 offset \<and>
           slot_ready c (page_of c0 offset) \<and> page_of c = page_of c0 \<and>
           pages c = pages c0 \<and> chunkshift c = chunkshift c0 \<and>
           (\<forall>q. count (bp c q) = count (bp c0 q)) \<and>
           blocks = blocks_of c offset"
proof (cases "slot_ready c0 (page_of c0 offset)")
  case True
  show ?thesis
    using True by (simp add: get_counter_ready [OF True] counter_value_ready)
next
  case False
  show ?thesis
    using False r after_create_deref [OF False r, of ok] after_create_ready [OF r, of ok]
    by (simp add: get_counter_create [OF r False] counter_value_ready)
qed

definition chunk_rest :: "bitmap_counts \<Rightarrow> nat \<Rightarrow> nat" where
  "chunk_rest c offset = 2 ^ chunkshift c - offset mod 2 ^ chunkshift c"

lemma chunk_rest_le_blocks: "chunk_rest c offset \<le> blocks_of c offset"
proof -
  define k where "k = chunkshift c"
  have a: "2 ^ k - offset mod 2 ^ k \<le> 2 ^ (k + m) - offset mod 2 ^ (k + m)" for m
  proof -
    have "offset mod 2 ^ (k + m) = 2 ^ k * (offset div 2 ^ k mod 2 ^ m) + offset mod 2 ^ k"
      by (simp add: power_add mod_mult2_eq)
    moreover have "offset div 2 ^ k mod 2 ^ m \<le> 2 ^ m - 1"
      using mod_less_divisor [of "2 ^ m" "offset div 2 ^ k"] by (simp del: mod_less_divisor)
    then have "2 ^ k * (offset div 2 ^ k mod 2 ^ m) \<le> 2 ^ k * (2 ^ m - 1)"
      by simp
    moreover have "(2::nat) ^ k * (2 ^ m - 1) = 2 ^ (k + m) - 2 ^ k"
      by (simp add: power_add algebra_simps)
    moreover have "offset mod 2 ^ k < 2 ^ k" by simp
    moreover have "(2::nat) ^ k \<le> 2 ^ (k + m)" by simp
    ultimately show ?thesis by linarith
  qed
  show ?thesis
    using a [of 0] a [of "PAGE_COUNTER_SHIFT - 1"]
    by (auto simp: chunk_rest_def blocks_of_def get_counter_csize_def k_def push_bit_eq_mult
        PAGE_COUNTER_SHIFT_def add.commute)
qed


lemma counter_value_assign:
  "slot_ready c (page_of c offset) \<Longrightarrow> counter_value (assign c (bmc_of c offset) v) offset = v"
  by (simp add: counter_value_ready deref_assign_bmc_of del: deref.simps assign.simps)

text \<open>
  One pass of \<^verbatim>\<open>bitmap_startwrite\<close> over a sector in range whose counter is not
  saturated, in terms of the counter that covers the sector.
\<close>

lemma startwrite_pass:
  assumes r: "page_of (counts b) offset < pages (counts b)"
    and unsat: "COUNTER (counter_value (counts b) offset) \<noteq> COUNTER_MAX"
    and w: "counter_value (counts b) offset = 0 \<Longrightarrow>
            count (bp (counts b) (page_of (counts b) offset)) + 1 \<noteq> 0"
  shows "\<exists>b' blocks. startwrite_step b offset ok = Step_done b' blocks \<and>
      counter_value (counts b') offset =
        (if counter_value (counts b) offset = 0 \<or> counter_value (counts b) offset = 1 then 3
         else counter_value (counts b) offset + 1) \<and>
      slot_ready (counts b') (page_of (counts b) offset) \<and>
      page_of (counts b') = page_of (counts b) \<and> pages (counts b') = pages (counts b) \<and>
      chunkshift (counts b') = chunkshift (counts b) \<and>
      chunk_rest (counts b) offset \<le> blocks"
proof -
  define v0 where "v0 = counter_value (counts b) offset"
  from get_counter_create_value [OF r, of ok] obtain blocks c where
    g: "bitmap_get_counter (counts b) offset True ok = (Some (bmc_of c offset), blocks, c)"
    and d: "deref c (bmc_of c offset) = v0"
    and rdy: "slot_ready c (page_of (counts b) offset)"
    and pg: "page_of c = page_of (counts b)" "pages c = pages (counts b)"
      "chunkshift c = chunkshift (counts b)"
    and cnt: "\<forall>q. count (bp c q) = count (bp (counts b) q)"
    and bl: "blocks = blocks_of c offset"
    unfolding v0_def by blast
  have rdy': "slot_ready c (page_of c offset)" using rdy pg by simp
  have rest: "chunk_rest (counts b) offset \<le> blocks"
    using chunk_rest_le_blocks [of c offset] by (simp add: bl chunk_rest_def pg)
  from unsat have "COUNTER (deref c (bmc_of c offset)) \<noteq> COUNTER_MAX" by (simp add: d v0_def)
  from startwrite_step_counts [OF g this] obtain b' where
    s: "startwrite_step b offset ok = Step_done b' blocks"
    and cb: "counts b' =
       (let c2 = (if v0 = 0 then assign (bitmap_count_page c offset 1) (bmc_of c offset) 2
                  else if v0 = 1 then assign c (bmc_of c offset) 2 else c)
        in assign c2 (bmc_of c offset) (deref c2 (bmc_of c offset) + 1))"
    unfolding d by blast
  define c2 where "c2 = (if v0 = 0 then assign (bitmap_count_page c offset 1) (bmc_of c offset) 2
                  else if v0 = 1 then assign c (bmc_of c offset) 2 else c)"
  have cb': "counts b' = assign c2 (bmc_of c offset) (deref c2 (bmc_of c offset) + 1)"
    using cb by (simp add: c2_def Let_def del: deref.simps assign.simps)
  have c2: "bmc_of c2 = bmc_of c \<and> slot_ready c2 = slot_ready c \<and> page_of c2 = page_of c \<and>
            pages c2 = pages c \<and> chunkshift c2 = chunkshift c \<and>
            deref c2 (bmc_of c offset) = (if v0 = 0 \<or> v0 = 1 then 2 else v0)"
  proof (cases "v0 = 0")
    case True
    from w True have busy: "count (bp c (page_of c offset)) + word_of_int 1 \<noteq> 0"
      by (simp add: v0_def cnt pg)
    note k = count_page_busy_derived [OF busy] count_page_busy_fields [OF busy]
    have "slot_ready (bitmap_count_page c offset 1) (page_of (bitmap_count_page c offset 1) offset)"
      using rdy' by (simp add: k)
    from deref_assign_bmc_of [OF this, of 2]
    show ?thesis using True by (simp add: c2_def k del: deref.simps assign.simps)
  next
    case False
    show ?thesis
      using False d deref_assign_bmc_of [OF rdy', of 2]
      by (simp add: c2_def del: deref.simps assign.simps)
  qed
  have rdy2: "slot_ready c2 (page_of c2 offset)" using c2 rdy' by simp
  have cb2: "counts b' = assign c2 (bmc_of c2 offset) (deref c2 (bmc_of c offset) + 1)"
    using cb' c2 by simp
  have "counter_value (counts b') offset = deref c2 (bmc_of c offset) + 1"
    unfolding cb2 by (rule counter_value_assign [OF rdy2])
  then have val: "counter_value (counts b') offset = (if v0 = 0 \<or> v0 = 1 then 3 else v0 + 1)"
    using c2 by simp
  have geo: "slot_ready (counts b') (page_of (counts b) offset)"
    "page_of (counts b') = page_of (counts b)" "pages (counts b') = pages (counts b)"
    "chunkshift (counts b') = chunkshift (counts b)"
    using c2 rdy pg by (simp_all add: cb2)
  from s val geo rest show ?thesis unfolding v0_def by blast
qed



text \<open>A call whose range lies inside one chunk makes one pass.\<close>

lemma startwrite_call:
  assumes r: "page_of (counts b) offset < pages (counts b)"
    and unsat: "COUNTER (counter_value (counts b) offset) \<noteq> COUNTER_MAX"
    and w: "counter_value (counts b) offset = 0 \<Longrightarrow>
            count (bp (counts b) (page_of (counts b) offset)) + 1 \<noteq> 0"
    and s: "0 < sectors" "sectors \<le> chunk_rest (counts b) offset"
  shows "\<exists>b'. bitmap_startwrite b offset sectors behind kz = Returned b' \<and>
      counter_value (counts b') offset =
        (if counter_value (counts b) offset = 0 \<or> counter_value (counts b) offset = 1 then 3
         else counter_value (counts b) offset + 1) \<and>
      slot_ready (counts b') (page_of (counts b) offset) \<and>
      page_of (counts b') = page_of (counts b) \<and> pages (counts b') = pages (counts b) \<and>
      chunkshift (counts b') = chunkshift (counts b)"
proof -
  define b0 where "b0 = startwrite_behind b behind"
  have c0: "counts b0 = counts b" by (simp add: b0_def behind_counts)
  from startwrite_pass [of b0 offset "kz 0"] r unsat w obtain b' blocks where
    p: "startwrite_step b0 offset (kz 0) = Step_done b' blocks"
      "counter_value (counts b') offset =
        (if counter_value (counts b) offset = 0 \<or> counter_value (counts b) offset = 1 then 3
         else counter_value (counts b) offset + 1)"
      "slot_ready (counts b') (page_of (counts b) offset)"
      "page_of (counts b') = page_of (counts b)" "pages (counts b') = pages (counts b)"
      "chunkshift (counts b') = chunkshift (counts b)"
      "chunk_rest (counts b) offset \<le> blocks"
    unfolding c0 by blast
  have "startwrite_loop b0 offset sectors kz = Returned b'"
    using s p(1) p(7)
    by (simp add: startwrite_loop.simps [of b0] startwrite_loop.simps [of b' _ 0])
  then have "bitmap_startwrite b offset sectors behind kz = Returned b'"
    by (simp add: bitmap_startwrite_def b0_def)
  with p show ?thesis by blast
qed


text \<open>\<open>n\<close> calls in a row on the same range; call \<open>k\<close> gets the answers \<open>kz k\<close> of \<^verbatim>\<open>kzalloc\<close>.\<close>

primrec startwrite_calls ::
  "nat \<Rightarrow> bitmap \<Rightarrow> nat \<Rightarrow> nat \<Rightarrow> bool \<Rightarrow> (nat \<Rightarrow> nat \<Rightarrow> bool) \<Rightarrow> bitmap" where
  "startwrite_calls 0 b offset sectors behind kz = b"
| "startwrite_calls (Suc n) b offset sectors behind kz =
     outcome_state (bitmap_startwrite (startwrite_calls n b offset sectors behind kz)
                      offset sectors behind (kz n))"


text \<open>The value from which a counter counts the writes: 0 and 1 count as 2.\<close>

definition floor2 :: "bitmap_counter_t \<Rightarrow> bitmap_counter_t" where
  "floor2 v = (if v = 0 \<or> v = 1 then 2 else v)"

lemma counter_add:
  "unat (COUNTER v) + n \<le> 16383 \<Longrightarrow> unat (COUNTER (v + of_nat n)) = unat (COUNTER v) + n"
proof (induction n)
  case 0
  show ?case by simp
next
  case (Suc n)
  then have ih: "unat (COUNTER (v + of_nat n)) = unat (COUNTER v) + n" by simp
  with Suc.prems have "unat (COUNTER (v + of_nat n)) < unat COUNTER_MAX"
    by (simp add: COUNTER_MAX_unat)
  then have lt: "COUNTER (v + of_nat n) < COUNTER_MAX" by (simp add: word_less_nat_alt)
  have "v + of_nat (Suc n) = v + of_nat n + 1" by simp
  then have "COUNTER (v + of_nat (Suc n)) = COUNTER (v + of_nat n) + 1"
    using counter_inc(1) [OF lt] by (simp only:)
  moreover have "unat (COUNTER (v + of_nat n) + 1) = unat (COUNTER (v + of_nat n)) + 1"
    using unat_add_lem [of "COUNTER (v + of_nat n)" 1] ih Suc.prems by simp
  ultimately show ?case using ih by simp
qed


lemma floor2_nonzero: "floor2 v \<noteq> 0"
  by (simp add: floor2_def)

lemma raised_next:
  assumes room: "unat (COUNTER (floor2 v0)) + Suc n \<le> 16383"
  defines "vn \<equiv> (if n = 0 then v0 else floor2 v0 + of_nat n)"
  shows "COUNTER vn \<noteq> COUNTER_MAX" "0 < n \<Longrightarrow> vn \<noteq> 0"
    "(if vn = 0 \<or> vn = 1 then 3 else vn + 1) = floor2 v0 + of_nat (Suc n)"
proof -
  have k: "COUNTER 0 = 0" "COUNTER 1 = 1" "unat COUNTER_MAX = 16383"
    by (simp_all add: COUNTER_def COUNTER_MAX_def)
  from room have room': "unat (COUNTER (floor2 v0)) + n \<le> 16383" by simp
  note a = counter_add [OF room']
  show "COUNTER vn \<noteq> COUNTER_MAX"
  proof (cases "n = 0")
    case True
    show ?thesis
    proof (cases "v0 = 0 \<or> v0 = 1")
      case True
      with \<open>n = 0\<close> show ?thesis by (auto simp: vn_def COUNTER_def COUNTER_MAX_def)
    next
      case False
      with room \<open>n = 0\<close> have "unat (COUNTER v0) \<noteq> unat COUNTER_MAX"
        by (simp add: floor2_def k)
      then show ?thesis using \<open>n = 0\<close> by (auto simp: vn_def)
    qed
  next
    case False
    with a room have "unat (COUNTER vn) \<noteq> unat COUNTER_MAX" by (simp add: vn_def k)
    then show ?thesis by auto
  qed
  have nz: "vn \<noteq> 0" if "0 < n"
  proof
    assume "vn = 0"
    with that a have "unat (COUNTER (0::16 word)) = unat (COUNTER (floor2 v0)) + n"
      by (simp add: vn_def)
    with that show False by (simp add: k)
  qed
  then show "0 < n \<Longrightarrow> vn \<noteq> 0" .
  show "(if vn = 0 \<or> vn = 1 then 3 else vn + 1) = floor2 v0 + of_nat (Suc n)"
  proof (cases "n = 0")
    case True
    then show ?thesis by (auto simp: vn_def floor2_def)
  next
    case False
    have "vn \<noteq> 1"
    proof
      assume e: "vn = 1"
      with False a have "unat (COUNTER (1::16 word)) = unat (COUNTER (floor2 v0)) + n"
        by (simp add: vn_def)
      with False have "n = 1" by (simp add: k)
      with e have "floor2 v0 + 1 = 1" by (simp add: vn_def)
      then have "floor2 v0 = 0" by simp
      with floor2_nonzero show False by blast
    qed
    with nz False show ?thesis by (simp add: vn_def)
  qed
qed

lemma startwrite_calls_value:
  assumes r: "page_of (counts b) offset < pages (counts b)"
    and w: "counter_value (counts b) offset = 0 \<Longrightarrow>
            count (bp (counts b) (page_of (counts b) offset)) + 1 \<noteq> 0"
    and s: "0 < sectors" "sectors \<le> chunk_rest (counts b) offset"
    and room: "unat (COUNTER (floor2 (counter_value (counts b) offset))) + n \<le> 16383"
  shows "counter_value (counts (startwrite_calls n b offset sectors behind kz)) offset =
           (if n = 0 then counter_value (counts b) offset
            else floor2 (counter_value (counts b) offset) + of_nat n) \<and>
         page_of (counts (startwrite_calls n b offset sectors behind kz)) = page_of (counts b) \<and>
         pages (counts (startwrite_calls n b offset sectors behind kz)) = pages (counts b) \<and>
         chunkshift (counts (startwrite_calls n b offset sectors behind kz)) = chunkshift (counts b) \<and>
         (0 < n \<longrightarrow> slot_ready (counts (startwrite_calls n b offset sectors behind kz))
                        (page_of (counts b) offset)) \<and>
         (\<forall>k<n. \<exists>b'. bitmap_startwrite (startwrite_calls k b offset sectors behind kz)
                         offset sectors behind (kz k) = Returned b')"
  using room
proof (induction n)
  case 0
  show ?case by simp
next
  case (Suc n)
  define v0 where "v0 = counter_value (counts b) offset"
  define B where "B = startwrite_calls n b offset sectors behind kz"
  from Suc have ih:
    "counter_value (counts B) offset = (if n = 0 then v0 else floor2 v0 + of_nat n)"
    "page_of (counts B) = page_of (counts b)" "pages (counts B) = pages (counts b)"
    "chunkshift (counts B) = chunkshift (counts b)"
    "\<forall>k<n. \<exists>b'. bitmap_startwrite (startwrite_calls k b offset sectors behind kz)
                         offset sectors behind (kz k) = Returned b'"
    by (simp_all add: v0_def B_def)
  from Suc.prems have room': "unat (COUNTER (floor2 v0)) + Suc n \<le> 16383" by (simp add: v0_def)
  note rn = raised_next [OF room']
  have r': "page_of (counts B) offset < pages (counts B)" using r ih by simp
  have unsat: "COUNTER (counter_value (counts B) offset) \<noteq> COUNTER_MAX"
    using rn(1) ih(1) by simp
  have w': "counter_value (counts B) offset = 0 \<Longrightarrow>
            count (bp (counts B) (page_of (counts B) offset)) + 1 \<noteq> 0"
  proof (cases "n = 0")
    case True
    then have "B = b" by (simp add: B_def)
    then show "counter_value (counts B) offset = 0 \<Longrightarrow>
            count (bp (counts B) (page_of (counts B) offset)) + 1 \<noteq> 0" using w by simp
  next
    case False
    with rn(2) ih(1) have "counter_value (counts B) offset \<noteq> 0" by simp
    then show "counter_value (counts B) offset = 0 \<Longrightarrow>
            count (bp (counts B) (page_of (counts B) offset)) + 1 \<noteq> 0" by simp
  qed
  have s': "sectors \<le> chunk_rest (counts B) offset"
    using s(2) by (simp add: chunk_rest_def ih)
  from startwrite_call [OF r' unsat w' s(1) s', of behind "kz n"] obtain b' where
    c: "bitmap_startwrite B offset sectors behind (kz n) = Returned b'"
      "counter_value (counts b') offset =
        (if counter_value (counts B) offset = 0 \<or> counter_value (counts B) offset = 1 then 3
         else counter_value (counts B) offset + 1)"
      "slot_ready (counts b') (page_of (counts B) offset)"
      "page_of (counts b') = page_of (counts B)" "pages (counts b') = pages (counts B)"
      "chunkshift (counts b') = chunkshift (counts B)"
    by blast
  have e: "startwrite_calls (Suc n) b offset sectors behind kz = b'"
    by (simp add: B_def [symmetric] c(1))
  have val: "counter_value (counts b') offset = floor2 v0 + of_nat (Suc n)"
    unfolding c(2) ih(1) by (rule rn(3))
  have ret: "\<forall>k<Suc n. \<exists>b'. bitmap_startwrite (startwrite_calls k b offset sectors behind kz)
                         offset sectors behind (kz k) = Returned b'"
    using ih(5) c(1) by (auto simp: less_Suc_eq B_def)
  show ?case
    unfolding e v0_def [symmetric]
    using val c(3) c(4) c(5) c(6) ih(2) ih(3) ih(4) ret by simp
qed




section \<open>A file that has been kicked\<close>





lemma written_wait_pending_writes [simp]: "written (wait_pending_writes b) = written b"
proof (induction b rule: wait_pending_writes.induct)
  case (1 bitmap)
  show ?case
  proof (cases "pending_writes bitmap \<le> 0")
    case True
    then show ?thesis by (simp add: wait_pending_writes.simps [of bitmap])
  next
    case False
    from "1" [OF False] False show ?thesis
      by (simp add: wait_pending_writes.simps [of bitmap] end_bitmap_write_def
          next_answer_def Let_def)
  qed
qed







lemma file_set_bit_frame [simp]:
  "flags (bitmap_file_set_bit b block) = flags b"
  "written (bitmap_file_set_bit b block) = written b"
  by (simp_all add: bitmap_file_set_bit_def set_page_attr_def page_set_bit_def Let_def
      split: option.splits)



section \<open>A bitmap to run the code on\<close>

text \<open>
  A bitmap of 2048 chunks of 8 sectors behind one page slot, as \<^verbatim>\<open>bitmap_create\<close>
  leaves it for an array with internal metadata: no counter page allocated, all
  bits of the one file page clear, nothing scheduled.
\<close>

definition fresh_page :: bitmap_page where
  "fresh_page = \<lparr>map_ptr = None, map_ctr = (\<lambda>hi. 0), hijacked = False, pending = False,
                  count = 0\<rparr>"

definition fresh_counts :: bitmap_counts where
  "fresh_counts = \<lparr>bp = (\<lambda>page. fresh_page), pages = 1, missing_pages = 1, chunkshift = 3,
                    chunks = 2048\<rparr>"

definition fresh_sb :: bitmap_super_t where
  "fresh_sb = \<lparr>sb_events = 0, sb_events_cleared = 0, sb_state = {}, sb_write_behind = 0,
                sb_sync_size = 16384, sb_chunksize = 4096, sb_nodes = 0,
                sb_sectors_reserved = 8\<rparr>"

definition fresh_storage :: bitmap_storage where
  "fresh_storage = \<lparr>storage_file = False, sb_page = Some fresh_sb,
                     filemap = Some (\<lambda>page bit_n. False), filemap_attr = {}, file_pages = 1,
                     bytes = 512\<rparr>"

definition fresh_mddev :: mddev where
  "fresh_mddev = \<lparr>md_events = 0, md_degraded = 0, md_resync_max_sectors = 16384,
                   md_recovery_cp = 0, bi_external = False, bi_offset = 8, bi_file = False, bi_daemon_sleep = 5, bi_max_write_behind = 0,
                   bi_chunksize = 4096, bi_nodes = 0, bi_space = 8, thread_timeout = Some 5\<rparr>"

definition fresh_bitmap :: bitmap where
  "fresh_bitmap = \<lparr>counts = fresh_counts, storage = fresh_storage, mddev = fresh_mddev,
                    flags = {}, allclean = True, need_sync = False, events_cleared = 0,
                    behind_writes = 0, behind_writes_used = 0, pending_writes = 0,
                    daemon_lastrun = 0, overflow_wait = 0, behind_wait = 0, write_wait = 0,
                    written = [],
                    transport = (\<lambda>i. IO_done)\<rparr>"

text \<open>
  The same bitmap after one write to chunk 0 has started and ended well: the
  counter of chunk 0 is 2 and its on-disk bit is set.
\<close>

definition written_bitmap :: bitmap where
  "written_bitmap =
     step_state (endwrite_step (step_state (startwrite_step fresh_bitmap 0 True)) 0 True)"

text \<open>
  The same bitmap after a write to chunk 0 has started while \<^verbatim>\<open>kzalloc\<close> returned
  NULL: the one page slot is hijacked and its inline counter 0 is 3.
\<close>

definition hijacked_bitmap :: bitmap where
  "hijacked_bitmap = outcome_state (bitmap_startwrite fresh_bitmap 0 8 False (\<lambda>i. False))"

text \<open>The fresh bitmap with 16381 writes to chunk 0 in flight.\<close>

definition saturated_bitmap :: bitmap where
  "saturated_bitmap = startwrite_calls 16381 fresh_bitmap 0 8 False (\<lambda>k i. True)"

lemmas fresh_defs = fresh_bitmap_def fresh_counts_def fresh_page_def fresh_storage_def
  fresh_mddev_def fresh_sb_def

lemmas file_defs = bitmap_file_set_bit_def bitmap_file_clear_bit_def filemap_get_page_def
  file_page_index_def file_page_offset_def page_set_bit_def set_page_attr_def
  clear_page_attr_def test_page_attr_def file_bit_def PAGE_BIT_SHIFT_def PAGE_BITS_def
  sizeof_bitmap_super_t_def

lemmas eval_defs = bitmap_get_counter_def bitmap_checkpage_def bitmap_checkfree_def
  bitmap_count_page_def bitmap_set_pending_def get_counter_csize_def counter_value_def
  page_of_def pageoff_of_def bmc_of_def blocks_of_def slot_ready_def
  PAGE_COUNTER_SHIFT_def PAGE_COUNTER_MASK_def PAGE_COUNTER_RATIO_def COUNTER_BYTE_SHIFT_def
  NEEDED_MASK_def RESYNC_MASK_def COUNTER_MAX_def COUNTER_def NEEDED_def RESYNC_def Let_def


lemma hijacked_bitmap_eq:
  "hijacked_bitmap =
     (bitmap_file_set_bit fresh_bitmap 0)
        \<lparr>counts := fresh_counts\<lparr>bp := (bp fresh_counts)
                     (0 := fresh_page\<lparr>map_ctr := (\<lambda>hi. 0)(0 := 3), hijacked := True,
                                        count := 1\<rparr>)\<rparr>\<rparr>"
proof -
  have s: "startwrite_step fresh_bitmap 0 False = Step_done
     ((bitmap_file_set_bit fresh_bitmap 0)
        \<lparr>counts := fresh_counts\<lparr>bp := (bp fresh_counts)
                     (0 := fresh_page\<lparr>map_ctr := (\<lambda>hi. 0)(0 := 3), hijacked := True,
                                        count := 1\<rparr>)\<rparr>\<rparr>) 8192"
    by (simp add: startwrite_step_def fresh_defs eval_defs file_defs)
  show ?thesis
    unfolding hijacked_bitmap_def bitmap_startwrite_def
    by (simp add: startwrite_behind_def startwrite_loop.simps [of fresh_bitmap]
        startwrite_loop.simps [of _ _ 0] s)
qed

lemma written_bitmap_eq:
  "written_bitmap =
       (bitmap_file_set_bit fresh_bitmap 0)
          \<lparr>counts := fresh_counts\<lparr>bp := (bp fresh_counts)
                       (0 := fresh_page\<lparr>map_ptr := Some ((\<lambda>pageoff. 0)(0 := 2)),
                                          pending := True, count := 1\<rparr>),
                     missing_pages := 0\<rparr>,
            allclean := False\<rparr>"
proof -
  have s1: "startwrite_step fresh_bitmap 0 True = Step_done
       ((bitmap_file_set_bit fresh_bitmap 0)
          \<lparr>counts := fresh_counts\<lparr>bp := (bp fresh_counts)
                       (0 := fresh_page\<lparr>map_ptr := Some ((\<lambda>pageoff. 0)(0 := 3)),
                                          count := 1\<rparr>),
                     missing_pages := 0\<rparr>\<rparr>) 8"
    by (simp add: startwrite_step_def fresh_defs eval_defs file_defs)
  show ?thesis
    unfolding written_bitmap_def s1
    by (simp add: endwrite_step_def fresh_defs eval_defs file_defs fun_upd_twist)
qed

lemma reachable_startwrite_calls:
  "reachable b \<Longrightarrow> reachable (startwrite_calls n b offset sectors behind kz)"
  by (induction n) (auto intro: reachable.startwrite)

lemma counter_value_cell:
  "cells_all P c \<Longrightarrow> P 0 \<Longrightarrow> P (counter_value c offset)"
  using cells_all_deref [of P c "bmc_of c offset"] by (simp add: counter_value_ready)

lemma saturated_bitmap_facts:
  "counter_value (counts saturated_bitmap) 0 = COUNTER_MAX"
  "slot_ready (counts saturated_bitmap) (page_of (counts saturated_bitmap) 0)"
  "reachable saturated_bitmap"
proof -
  have f: "page_of (counts fresh_bitmap) 0 < pages (counts fresh_bitmap)"
    "(8::nat) \<le> chunk_rest (counts fresh_bitmap) 0"
    "counter_value (counts fresh_bitmap) 0 = 0"
    "count (bp (counts fresh_bitmap) (page_of (counts fresh_bitmap) 0)) + 1 \<noteq> 0"
    by (simp_all add: fresh_defs eval_defs chunk_rest_def)
  have room: "unat (COUNTER (floor2 (counter_value (counts fresh_bitmap) 0))) + 16381 \<le> 16383"
    by (simp add: f(3) floor2_def COUNTER_def)
  note t = startwrite_calls_value [OF f(1) f(4) _ f(2) room, of False "\<lambda>k i. True",
      folded saturated_bitmap_def]
  from t show "counter_value (counts saturated_bitmap) 0 = COUNTER_MAX"
    by (simp add: f(3) floor2_def COUNTER_MAX_def)
  from t show "slot_ready (counts saturated_bitmap) (page_of (counts saturated_bitmap) 0)"
    by simp
  have "reachable fresh_bitmap"
    by (rule reachable.created) (simp add: fresh_defs zero_page_slot_def)
  then show "reachable saturated_bitmap"
    unfolding saturated_bitmap_def by (rule reachable_startwrite_calls)
qed




section \<open>The claims\<close>

subsection \<open>C7: what bitmap_get_counter reports\<close>

text \<open>
  C7. For every call \<^verbatim>\<open>bitmap_get_counter(offset, blocks, create)\<close>, with the page
  slot taken as \<^verbatim>\<open>bitmap_checkpage\<close> left it: \<open>csize\<close> is
  \<^verbatim>\<open>1 << (chunkshift + PAGE_COUNTER_SHIFT - 1)\<close> when the slot is hijacked or has no
  page, and \<^verbatim>\<open>1 << chunkshift\<close> otherwise; in all cases \<^verbatim>\<open>*blocks\<close> is
  \<^verbatim>\<open>csize - (offset & (csize - 1))\<close>, which is positive, at most \<open>csize\<close>, and
  leads to the next multiple of \<open>csize\<close>; and for a hijacked slot the pointer
  returned is the inline counter 1 (hi) exactly when
  \<^verbatim>\<open>pageoff > PAGE_COUNTER_MASK\<close>, and the inline counter 0 (lo) otherwise.
\<close>

theorem get_counter_span:
  assumes "bitmap_get_counter bitmap offset create kzalloc_ok = (r, blocks, bitmap')"
  shows "let chunk = drop_bit (chunkshift bitmap) offset;
             page = drop_bit PAGE_COUNTER_SHIFT chunk;
             pageoff = push_bit COUNTER_BYTE_SHIFT (chunk AND PAGE_COUNTER_MASK);
             csize = (if hijacked (bp bitmap' page) \<or> map_ptr (bp bitmap' page) = None
                      then push_bit (chunkshift bitmap + PAGE_COUNTER_SHIFT - 1) (1::nat)
                      else push_bit (chunkshift bitmap) 1)
         in blocks = csize - (offset AND (csize - 1)) \<and>
            0 < blocks \<and> blocks \<le> csize \<and> (offset + blocks) mod csize = 0 \<and>
            (hijacked (bp bitmap' page) \<and> page < pages bitmap \<longrightarrow>
               r = Some (Inline_counter page (if pageoff > PAGE_COUNTER_MASK then 1 else 0)))"
proof -
  define chunk where "chunk = drop_bit (chunkshift bitmap) offset"
  define page where "page = drop_bit PAGE_COUNTER_SHIFT chunk"
  define pageoff where "pageoff = push_bit COUNTER_BYTE_SHIFT (chunk AND PAGE_COUNTER_MASK)"
  define csize where "csize = get_counter_csize bitmap' page"
  have cs: "chunkshift bitmap' = chunkshift bitmap"
    using assms
    by (auto simp: bitmap_get_counter_alt split: sum.splits dest: checkpage_chunkshift)
  have csize_eq: "csize = (if hijacked (bp bitmap' page) \<or> map_ptr (bp bitmap' page) = None
                      then push_bit (chunkshift bitmap + PAGE_COUNTER_SHIFT - 1) (1::nat)
                      else push_bit (chunkshift bitmap) 1)"
    by (simp add: csize_def get_counter_csize_def cs)
  have pos: "0 < csize" by (simp add: csize_def get_counter_csize_pos)
  have b1: "blocks = csize - offset mod csize"
    using get_counter_blocks [OF assms] by (simp add: csize_def page_def chunk_def)
  have b2: "blocks = csize - (offset AND (csize - 1))"
    unfolding b1 csize_def by (simp only: get_counter_csize_mask)
  have lt: "offset mod csize < csize" using pos by simp
  have b3: "0 < blocks" "blocks \<le> csize" using b1 lt by auto
  have "offset = (offset div csize) * csize + offset mod csize" by simp
  then have "offset + blocks = (offset div csize) * csize + csize"
    using b1 lt by linarith
  then have b4: "(offset + blocks) mod csize = 0" by simp
  have hij: "hijacked (bp bitmap' page) \<and> page < pages bitmap \<longrightarrow>
               r = Some (Inline_counter page (if pageoff > PAGE_COUNTER_MASK then 1 else 0))"
    using assms
    by (auto simp: bitmap_get_counter_def Let_def page_def chunk_def pageoff_def
          bitmap_checkpage_def split: sum.splits if_splits)
  show ?thesis
    unfolding Let_def
    using b2 b3 b4 hij
    by (simp only: csize_eq [symmetric] page_def [symmetric] chunk_def [symmetric]
        pageoff_def [symmetric])
qed

text \<open>
  The lookup of sector 12003 (chunk 1500, in the upper half of page 0) after the
  allocation of page 0 has failed: the hi inline counter, and 4381 sectors to
  the end of the 8192 sectors that it covers.
\<close>

theorem get_counter_span_witness:
  "bitmap_get_counter fresh_counts 12003 True False
     = (Some (Inline_counter 0 1), 4381,
        fresh_counts\<lparr>bp := (bp fresh_counts)(0 := fresh_page\<lparr>hijacked := True\<rparr>)\<rparr>) \<and>
   (4381::nat) = 8192 - (12003 AND 8191) \<and> (12003 + 4381) mod 8192 = (0::nat)"
proof -
  have h: "bitmap_get_counter fresh_counts 12003 True False
     = (Some (Inline_counter 0 1), 4381,
        fresh_counts\<lparr>bp := (bp fresh_counts)(0 := fresh_page\<lparr>hijacked := True\<rparr>)\<rparr>)"
    by (simp add: fresh_defs eval_defs)
  from get_counter_span [OF h] h show ?thesis
    by (simp add: fresh_defs eval_defs)
qed

subsection \<open>C10: bitmap_set_memory_bits touches only a counter that is 0\<close>



subsection \<open>C1: one pass of bitmap_startwrite\<close>

text \<open>
  C1. In every pass of the loop of \<^verbatim>\<open>bitmap_startwrite\<close> that finds a counter
  which is not saturated (its count is below \<^verbatim>\<open>COUNTER_MAX\<close>): if the counter is
  0, the bit of the chunk is set by \<^verbatim>\<open>bitmap_file_set_bit\<close> (where the file has a
  page for the chunk, the bit is set and the page is DIRTY), the count of the
  page slot goes up by one through \<^verbatim>\<open>bitmap_count_page\<close>, and the counter becomes
  3; if the counter is 1 it becomes 3; otherwise it goes up by exactly 1; NEEDED
  and RESYNC are as they were. (For a counter that is 0, the 30-bit count of the
  slot is taken not to wrap to 0.)
\<close>

theorem startwrite_step_raises:
  assumes g: "bitmap_get_counter (counts b) offset True ok = (Some bmc, blocks, c)"
    and unsat: "COUNTER (deref c bmc) < COUNTER_MAX"
    and w: "count (bp (counts b) (page_of (counts b) offset)) + 1 \<noteq> 0"
  shows "\<exists>b'. startwrite_step b offset ok = Step_done b' blocks \<and>
     (deref c bmc = 0 \<longrightarrow>
        storage b' = storage (bitmap_file_set_bit b offset) \<and>
        (\<forall>page. filemap_get_page (storage b) (drop_bit (chunkshift (counts b)) offset) = Some page
                  \<and> filemap (storage b) \<noteq> None \<longrightarrow>
           file_bit b' (drop_bit (chunkshift (counts b)) offset) \<and>
           test_page_attr b' page BITMAP_PAGE_DIRTY) \<and>
        count (bp (counts b') (page_of (counts b) offset))
          = count (bp (counts b) (page_of (counts b) offset)) + 1 \<and>
        deref (counts b') bmc = 3) \<and>
     (deref c bmc = 1 \<longrightarrow> deref (counts b') bmc = 3) \<and>
     (deref c bmc \<noteq> 0 \<and> deref c bmc \<noteq> 1 \<longrightarrow>
        deref (counts b') bmc = deref c bmc + 1 \<and>
        COUNTER (deref (counts b') bmc) = COUNTER (deref c bmc) + 1) \<and>
     NEEDED (deref (counts b') bmc) = NEEDED (deref c bmc) \<and>
     RESYNC (deref (counts b') bmc) = RESYNC (deref c bmc)"
proof -
  have flags3: "\<not> NEEDED 3" "\<not> RESYNC 3" "\<not> NEEDED 0" "\<not> RESYNC 0" "\<not> NEEDED 1" "\<not> RESYNC 1"
    by (simp_all add: NEEDED_def RESYNC_def NEEDED_MASK_def RESYNC_MASK_def)
  consider (zero) "deref c bmc = 0" | (one) "deref c bmc = 1"
    | (more) "deref c bmc \<noteq> 0" "deref c bmc \<noteq> 1" by blast
  then show ?thesis
  proof cases
    case zero
    from startwrite_step_zero [OF g zero w] obtain b' where
      s: "startwrite_step b offset ok = Step_done b' blocks"
      and st: "storage b' = storage (bitmap_file_set_bit b offset)"
      and c: "count (bp (counts b') (page_of (counts b) offset))
                = count (bp (counts b) (page_of (counts b) offset)) + 1"
      and d: "deref (counts b') bmc = 3" by blast
    have fb: "\<forall>page. filemap_get_page (storage b) (drop_bit (chunkshift (counts b)) offset) = Some page
                  \<and> filemap (storage b) \<noteq> None \<longrightarrow>
           file_bit b' (drop_bit (chunkshift (counts b)) offset) \<and>
           test_page_attr b' page BITMAP_PAGE_DIRTY"
      using file_set_bit_effect [of b offset]
      by (simp add: file_bit_storage_cong [OF st] test_page_attr_storage_cong [OF st])
    show ?thesis
      using s st c d fb zero flags3 by simp
  next
    case one
    from startwrite_step_one [OF g one] obtain b' where
      "startwrite_step b offset ok = Step_done b' blocks" "deref (counts b') bmc = 3" by blast
    then show ?thesis using one flags3 by simp
  next
    case more
    have ne: "COUNTER (deref c bmc) \<noteq> COUNTER_MAX" using unsat by simp
    from startwrite_step_more [OF g more ne] obtain b' where
      "startwrite_step b offset ok = Step_done b' blocks"
      "deref (counts b') bmc = deref c bmc + 1" by blast
    then show ?thesis using more counter_inc [OF unsat] by simp
  qed
qed

text \<open>
  The first write to chunk 0 of the fresh bitmap: page 0 is allocated, the
  counter goes from 0 to 3, bit 0 of the file is set and its page is DIRTY.
\<close>

theorem startwrite_step_raises_witness:
  "bitmap_get_counter (counts fresh_bitmap) 0 True True
     = (Some (Page_counter 0 0), 8,
        fresh_counts\<lparr>bp := (bp fresh_counts)
                       (0 := fresh_page\<lparr>map_ptr := Some (\<lambda>pageoff. 0)\<rparr>),
                     missing_pages := 0\<rparr>) \<and>
   (\<exists>b'. startwrite_step fresh_bitmap 0 True = Step_done b' 8 \<and>
      deref (counts b') (Page_counter 0 0) = 3 \<and>
      count (bp (counts b') 0) = 1 \<and>
      file_bit b' 0 \<and> test_page_attr b' 0 BITMAP_PAGE_DIRTY)"
proof -
  define c where "c = fresh_counts\<lparr>bp := (bp fresh_counts)
                       (0 := fresh_page\<lparr>map_ptr := Some (\<lambda>pageoff. 0)\<rparr>),
                     missing_pages := 0\<rparr>"
  have h1: "bitmap_get_counter (counts fresh_bitmap) 0 True True
     = (Some (Page_counter 0 0), 8, c)"
    by (simp add: fresh_defs eval_defs c_def)
  have z: "deref c (Page_counter 0 0) = 0" by (simp add: c_def)
  have h2: "COUNTER (deref c (Page_counter 0 0)) < COUNTER_MAX"
    unfolding z by (simp add: COUNTER_def COUNTER_MAX_def)
  have h3: "count (bp (counts fresh_bitmap) (page_of (counts fresh_bitmap) 0)) + 1 \<noteq> 0"
    by (simp add: fresh_defs eval_defs)
  have p: "page_of (counts fresh_bitmap) 0 = 0" "drop_bit (chunkshift (counts fresh_bitmap)) 0 = (0::nat)"
    "count (bp (counts fresh_bitmap) 0) = 0"
    "filemap_get_page (storage fresh_bitmap) 0 = Some 0" "filemap (storage fresh_bitmap) \<noteq> None"
    by (simp_all add: fresh_defs eval_defs filemap_get_page_def file_page_index_def
        PAGE_BIT_SHIFT_def sizeof_bitmap_super_t_def)
  from startwrite_step_raises [OF h1 h2 h3] show ?thesis
    unfolding c_def [symmetric] using h1 by (auto simp: z p simp del: deref.simps)
qed

subsection \<open>C2: one pass of bitmap_endwrite\<close>

text \<open>
  C2. In every pass of the loop of \<^verbatim>\<open>bitmap_endwrite\<close> that finds a counter (the
  lookup without \<^verbatim>\<open>create\<close> returns a pointer): when \<open>success\<close> is false the
  NEEDED bit is set; the counter is then lowered by 1 (so it ends as the old
  value with NEEDED, minus 1, and NEEDED survives the step when the count was not
  0); and if the result is at most 2, the pending hint of the page slot is set
  and \<^verbatim>\<open>allclean\<close> is cleared, while a larger result leaves both as they were.
\<close>

theorem endwrite_step_lowers:
  assumes g: "bitmap_get_counter (counts b) offset False False = (Some bmc, blocks, c)"
  shows "\<exists>b'. endwrite_step b offset success = Step_done b' blocks \<and>
     (\<not> success \<longrightarrow>
        deref (counts b') bmc = (deref c bmc OR NEEDED_MASK) - 1 \<and>
        (COUNTER (deref c bmc) \<noteq> 0 \<longrightarrow> NEEDED (deref (counts b') bmc))) \<and>
     (success \<longrightarrow> deref (counts b') bmc = deref c bmc - 1) \<and>
     (deref (counts b') bmc \<le> 2 \<longrightarrow>
        pending (bp (counts b') (page_of (counts b) offset)) \<and> \<not> allclean b') \<and>
     (\<not> deref (counts b') bmc \<le> 2 \<longrightarrow>
        pending (bp (counts b') (page_of (counts b) offset))
          = pending (bp (counts b) (page_of (counts b) offset)) \<and>
        allclean b' = allclean b)"
proof -
  define v where "v = (if \<not> success \<and> \<not> NEEDED (deref c bmc) then deref c bmc OR NEEDED_MASK
                 else deref c bmc)"
  from endwrite_step_value [OF g, of success] obtain b' where
    s: "endwrite_step b offset success = Step_done b' blocks"
    and d: "deref (counts b') bmc = v - 1"
    and p: "pending (bp (counts b') (page_of (counts b) offset))
             = (v - 1 \<le> 2 \<or> pending (bp (counts b) (page_of (counts b) offset)))"
    and a: "allclean b' = (\<not> v - 1 \<le> 2 \<and> allclean b)"
    unfolding v_def by blast
  have v1: "\<not> success \<Longrightarrow> v = deref c bmc OR NEEDED_MASK"
    by (auto simp: v_def or_needed_idem)
  have v2: "success \<Longrightarrow> v = deref c bmc" by (simp add: v_def)
  have n: "\<not> success \<Longrightarrow> COUNTER (deref c bmc) \<noteq> 0 \<Longrightarrow> NEEDED (v - 1)"
  proof -
    assume ns: "\<not> success" and nz: "COUNTER (deref c bmc) \<noteq> 0"
    have "COUNTER v \<noteq> 0" using nz by (simp add: v1 [OF ns] or_needed)
    from counter_dec(2) [OF this] show "NEEDED (v - 1)"
      by (simp add: v1 [OF ns] or_needed)
  qed
  show ?thesis
    using s d p a v1 v2 n by auto
qed


text \<open>
  The end of the first write to chunk 0, after the pass of C1's witness: the
  counter goes from 3 to 2 and the page becomes pending; had the write failed, it
  would go to \<^verbatim>\<open>NEEDED_MASK | 2\<close>, which is more than 2.
\<close>

theorem endwrite_step_lowers_witness:
  "(\<exists>b1. startwrite_step fresh_bitmap 0 True = Step_done b1 8 \<and>
      bitmap_get_counter (counts b1) 0 False False = (Some (Page_counter 0 0), 8, counts b1) \<and>
      (\<exists>b'. endwrite_step b1 0 True = Step_done b' 8 \<and>
         deref (counts b') (Page_counter 0 0) = 2 \<and>
         pending (bp (counts b') 0) \<and> \<not> allclean b') \<and>
      (\<exists>b'. endwrite_step b1 0 False = Step_done b' 8 \<and>
         deref (counts b') (Page_counter 0 0) = 0x8002 \<and>
         NEEDED (deref (counts b') (Page_counter 0 0)) \<and>
         \<not> pending (bp (counts b') 0) \<and> allclean b'))"
proof -
  obtain b1 where s: "startwrite_step fresh_bitmap 0 True = Step_done b1 8"
    and b1: "b1 = (bitmap_file_set_bit
                    (fresh_bitmap\<lparr>counts := fresh_counts\<lparr>bp := (bp fresh_counts)
                       (0 := fresh_page\<lparr>map_ptr := Some (\<lambda>pageoff. 0)\<rparr>),
                     missing_pages := 0\<rparr>\<rparr>) 0)
                  \<lparr>counts := fresh_counts\<lparr>bp := (bp fresh_counts)
                       (0 := fresh_page\<lparr>map_ptr := Some ((\<lambda>pageoff. 0)(0 := 3)),
                                          count := 1\<rparr>),
                     missing_pages := 0\<rparr>\<rparr>"
    by (simp add: startwrite_step_def fresh_defs eval_defs)
  have g: "bitmap_get_counter (counts b1) 0 False False = (Some (Page_counter 0 0), 8, counts b1)"
    by (simp add: b1 fresh_defs eval_defs)
  have v: "deref (counts b1) (Page_counter 0 0) = 3" "page_of (counts b1) 0 = 0"
    "\<not> pending (bp (counts b1) 0)" "allclean b1"
    by (simp_all add: b1 fresh_defs eval_defs bitmap_file_set_bit_def filemap_get_page_def
        file_page_index_def PAGE_BIT_SHIFT_def sizeof_bitmap_super_t_def Let_def
        page_set_bit_def set_page_attr_def)
  have n: "((3::16 word) OR NEEDED_MASK) - 1 = 0x8002" "NEEDED (0x8002::16 word)"
    "\<not> (0x8002::16 word) \<le> 2" "COUNTER (3::16 word) \<noteq> 0"
    by (simp_all add: NEEDED_MASK_def NEEDED_def COUNTER_def)
  from endwrite_step_lowers [OF g, of True] endwrite_step_lowers [OF g, of False]
  show ?thesis
    using s g by (auto simp: v n simp del: deref.simps)
qed

subsection \<open>C3: what the daemon does to a counter it visits\<close>




subsection \<open>C9: a hijacked slot owns no counter page\<close>

text \<open>
  C9. In every state that the operations reach from a zeroed table of slots, a
  slot that is hijacked owns no counter page: its field \<^verbatim>\<open>map\<close> holds the two
  inline counters and nothing else, so \<^verbatim>\<open>map\<close> is NULL exactly when both inline
  counters are 0. And \<^verbatim>\<open>bitmap_checkfree\<close> on a slot whose \<open>count\<close> is 0 un-hijacks
  a hijacked slot and sets \<^verbatim>\<open>map\<close> to NULL, with \<^verbatim>\<open>missing_pages\<close> as it was,
  while for a slot that is not hijacked it frees the page, sets \<^verbatim>\<open>map\<close> to NULL
  and adds one to \<^verbatim>\<open>missing_pages\<close>; it leaves a slot whose \<open>count\<close> is not 0
  alone, and never touches another slot.
\<close>

theorem hijacked_slot_owns_no_page:
  "(reachable b \<longrightarrow>
      (\<forall>q. hijacked (bp (counts b) q) \<longrightarrow>
           map_ptr (bp (counts b) q) = None \<and>
           map_is_null (bp (counts b) q) =
             (map_ctr (bp (counts b) q) 0 = 0 \<and> map_ctr (bp (counts b) q) 1 = 0))) \<and>
   (count (bp c p) = 0 \<and> hijacked (bp c p) \<longrightarrow>
      \<not> hijacked (bp (bitmap_checkfree c p) p) \<and>
      map_is_null (bp (bitmap_checkfree c p) p) \<and>
      map_ctr (bp (bitmap_checkfree c p) p) = (\<lambda>hi. 0) \<and>
      missing_pages (bitmap_checkfree c p) = missing_pages c) \<and>
   (count (bp c p) = 0 \<and> \<not> hijacked (bp c p) \<longrightarrow>
      \<not> hijacked (bp (bitmap_checkfree c p) p) \<and>
      map_is_null (bp (bitmap_checkfree c p) p) \<and>
      missing_pages (bitmap_checkfree c p) = missing_pages c + 1) \<and>
   (count (bp c p) \<noteq> 0 \<longrightarrow> bitmap_checkfree c p = c) \<and>
   (\<forall>q. q \<noteq> p \<longrightarrow> bp (bitmap_checkfree c p) q = bp c q)"
proof -
  have "reachable b \<longrightarrow>
      (\<forall>q. hijacked (bp (counts b) q) \<longrightarrow>
           map_ptr (bp (counts b) q) = None \<and>
           map_is_null (bp (counts b) q) =
             (map_ctr (bp (counts b) q) 0 = 0 \<and> map_ctr (bp (counts b) q) 1 = 0))"
    using reachable_hijacked_no_map [of b] by (simp add: hijacked_no_map_def map_is_null_def)
  then show ?thesis by (simp add: bitmap_checkfree_def map_is_null_def)
qed

text \<open>
  The bitmap whose slot was hijacked by a write is reachable, its slot owns no
  page and, with a count of 1, is left alone by \<^verbatim>\<open>bitmap_checkfree\<close>; when its
  count goes down to 0 the slot is un-hijacked, \<^verbatim>\<open>map\<close> is NULL and
  \<^verbatim>\<open>missing_pages\<close> stays 1. The slot of the bitmap that was written with a page
  allocated loses its page when its count goes down to 0, and \<^verbatim>\<open>missing_pages\<close>
  goes from 0 to 1.
\<close>

theorem hijacked_slot_owns_no_page_witness:
  "reachable hijacked_bitmap \<and>
   hijacked (bp (counts hijacked_bitmap) 0) \<and>
   map_ptr (bp (counts hijacked_bitmap) 0) = None \<and>
   count (bp (counts hijacked_bitmap) 0) = 1 \<and>
   bitmap_checkfree (counts hijacked_bitmap) 0 = counts hijacked_bitmap \<and>
   \<not> hijacked (bp (bitmap_count_page (counts hijacked_bitmap) 0 (- 1)) 0) \<and>
   map_is_null (bp (bitmap_count_page (counts hijacked_bitmap) 0 (- 1)) 0) \<and>
   missing_pages (bitmap_count_page (counts hijacked_bitmap) 0 (- 1)) = 1 \<and>
   \<not> map_is_null (bp (counts written_bitmap) 0) \<and>
   map_is_null (bp (bitmap_count_page (counts written_bitmap) 0 (- 1)) 0) \<and>
   missing_pages (counts written_bitmap) = 0 \<and>
   missing_pages (bitmap_count_page (counts written_bitmap) 0 (- 1)) = 1"
proof -
  have r: "reachable hijacked_bitmap"
    unfolding hijacked_bitmap_def
    by (rule reachable.startwrite, rule reachable.created)
       (simp add: fresh_defs zero_page_slot_def)
  have h: "hijacked (bp (counts hijacked_bitmap) 0)" "count (bp (counts hijacked_bitmap) 0) = 1"
    "missing_pages (counts hijacked_bitmap) = 1"
    by (simp_all add: hijacked_bitmap_eq fresh_defs)
  define ch where "ch = (counts hijacked_bitmap)\<lparr>bp := (bp (counts hijacked_bitmap))
       (0 := (bp (counts hijacked_bitmap) 0)\<lparr>count := 0\<rparr>)\<rparr>"
  have ch: "count (bp ch 0) = 0" "hijacked (bp ch 0)" "missing_pages ch = 1"
    "bitmap_count_page (counts hijacked_bitmap) 0 (- 1) = bitmap_checkfree ch 0"
    by (simp_all add: ch_def h bitmap_count_page_def Let_def PAGE_COUNTER_SHIFT_def)
  define cw where "cw = (counts written_bitmap)\<lparr>bp := (bp (counts written_bitmap))
       (0 := (bp (counts written_bitmap) 0)\<lparr>count := 0\<rparr>)\<rparr>"
  have w: "\<not> map_is_null (bp (counts written_bitmap) 0)"
    "missing_pages (counts written_bitmap) = 0" "count (bp (counts written_bitmap) 0) = 1"
    "\<not> hijacked (bp (counts written_bitmap) 0)"
    by (simp_all add: written_bitmap_eq fresh_defs map_is_null_def)
  have cw: "count (bp cw 0) = 0" "\<not> hijacked (bp cw 0)" "missing_pages cw = 0"
    "bitmap_count_page (counts written_bitmap) 0 (- 1) = bitmap_checkfree cw 0"
    by (simp_all add: cw_def w bitmap_count_page_def Let_def PAGE_COUNTER_SHIFT_def)
  note t1 = hijacked_slot_owns_no_page [of hijacked_bitmap "counts hijacked_bitmap" 0]
  note t2 = hijacked_slot_owns_no_page [of hijacked_bitmap ch 0]
  note t3 = hijacked_slot_owns_no_page [of hijacked_bitmap cw 0]
  have a: "map_ptr (bp (counts hijacked_bitmap) 0) = None"
    "bitmap_checkfree (counts hijacked_bitmap) 0 = counts hijacked_bitmap"
    using t1 r h by simp_all
  have b: "\<not> hijacked (bp (bitmap_checkfree ch 0) 0)" "map_is_null (bp (bitmap_checkfree ch 0) 0)"
    "missing_pages (bitmap_checkfree ch 0) = 1"
    using t2 ch by simp_all
  have c: "map_is_null (bp (bitmap_checkfree cw 0) 0)" "missing_pages (bitmap_checkfree cw 0) = 1"
    using t3 cw by simp_all
  show ?thesis
    using r h w a b c by (simp add: ch(4) cw(4))
qed

text \<open>
  The invariant does not hold of the field \<^verbatim>\<open>map\<close> as such: the slot that the
  write hijacked has its inline counter 0 at 3, and these are bytes of \<^verbatim>\<open>map\<close>,
  which is therefore not NULL.
\<close>

theorem hijacked_slot_map_not_null:
  "reachable hijacked_bitmap \<and>
   hijacked (bp (counts hijacked_bitmap) 0) \<and>
   map_ctr (bp (counts hijacked_bitmap) 0) 0 = 3 \<and>
   \<not> map_is_null (bp (counts hijacked_bitmap) 0)"
proof -
  have r: "reachable hijacked_bitmap"
    unfolding hijacked_bitmap_def
    by (rule reachable.startwrite, rule reachable.created)
       (simp add: fresh_defs zero_page_slot_def)
  have h: "hijacked (bp (counts hijacked_bitmap) 0)"
    "map_ctr (bp (counts hijacked_bitmap) 0) 0 = 3"
    by (simp_all add: hijacked_bitmap_eq fresh_defs)
  from r h show ?thesis by (simp add: map_is_null_def)
qed

subsection \<open>C6: writes that start and end leave the counter where it was\<close>



subsection \<open>C5: the count of a counter stays at or below COUNTER_MAX\<close>

text \<open>
  C5. Modelled from the spec: \<^verbatim>\<open>COUNTER\<close> is the spec's \<^verbatim>\<open>x & 0x3FFF\<close>;
  \<^verbatim>\<open>COUNTER_MAX\<close> is the 16383 that the source names. In every state that the
  operations reach from a zeroed table of slots, whatever the calls and their
  arguments, the counter that covers any sector has a count of at most
  \<^verbatim>\<open>COUNTER_MAX\<close>. A pass of \<^verbatim>\<open>bitmap_startwrite\<close> that finds the count at
  \<^verbatim>\<open>COUNTER_MAX\<close> does not raise the counter: the counter stays as it is and the
  thread sleeps on \<^verbatim>\<open>overflow_wait\<close> with the rest of its range still to do. A
  pass of \<^verbatim>\<open>bitmap_endwrite\<close> wakes \<^verbatim>\<open>overflow_wait\<close> exactly when the counter it
  lowers has its count at \<^verbatim>\<open>COUNTER_MAX\<close>, and the count is below \<^verbatim>\<open>COUNTER_MAX\<close>
  afterwards.
\<close>

theorem counter_stays_bounded:
  "(reachable b \<longrightarrow>
      (\<forall>sector. COUNTER (counter_value (counts b) sector) \<le> COUNTER_MAX)) \<and>
   (bitmap_get_counter (counts b) offset True ok = (Some bmc, blocks, c) \<and>
    COUNTER (deref c bmc) = COUNTER_MAX \<longrightarrow>
      startwrite_step b offset ok = Step_wait (b\<lparr>counts := c\<rparr>) \<and>
      (\<forall>sectors kz. 0 < sectors \<and> kz 0 = ok \<longrightarrow>
         startwrite_loop b offset sectors kz = Suspended (b\<lparr>counts := c\<rparr>) offset sectors)) \<and>
   (bitmap_get_counter (counts b) offset False False = (Some bmc', blocks', c') \<longrightarrow>
      overflow_wait (step_state (endwrite_step b offset success)) =
        (if COUNTER (deref c' bmc') = COUNTER_MAX then overflow_wait b + 1 else overflow_wait b) \<and>
      (COUNTER (deref c' bmc') = COUNTER_MAX \<longrightarrow>
         COUNTER (deref (counts (step_state (endwrite_step b offset success))) bmc')
           < COUNTER_MAX))"
proof -
  have one: "reachable b \<longrightarrow>
      (\<forall>sector. COUNTER (counter_value (counts b) sector) \<le> COUNTER_MAX)"
    by (simp add: COUNTER_le_MAX)
  have two: "bitmap_get_counter (counts b) offset True ok = (Some bmc, blocks, c) \<and>
    COUNTER (deref c bmc) = COUNTER_MAX \<longrightarrow>
      startwrite_step b offset ok = Step_wait (b\<lparr>counts := c\<rparr>) \<and>
      (\<forall>sectors kz. 0 < sectors \<and> kz 0 = ok \<longrightarrow>
         startwrite_loop b offset sectors kz = Suspended (b\<lparr>counts := c\<rparr>) offset sectors)"
  proof
    assume h: "bitmap_get_counter (counts b) offset True ok = (Some bmc, blocks, c) \<and>
      COUNTER (deref c bmc) = COUNTER_MAX"
    then have s: "startwrite_step b offset ok = Step_wait (b\<lparr>counts := c\<rparr>)"
      by (simp add: startwrite_step_def Let_def del: deref.simps)
    have "startwrite_loop b offset sectors kz = Suspended (b\<lparr>counts := c\<rparr>) offset sectors"
      if "0 < sectors \<and> kz 0 = ok" for sectors kz
      using that s by (simp add: startwrite_loop.simps [of b])
    with s show "startwrite_step b offset ok = Step_wait (b\<lparr>counts := c\<rparr>) \<and>
      (\<forall>sectors kz. 0 < sectors \<and> kz 0 = ok \<longrightarrow>
         startwrite_loop b offset sectors kz = Suspended (b\<lparr>counts := c\<rparr>) offset sectors)"
      by blast
  qed
  have three: "bitmap_get_counter (counts b) offset False False = (Some bmc', blocks', c') \<longrightarrow>
      overflow_wait (step_state (endwrite_step b offset success)) =
        (if COUNTER (deref c' bmc') = COUNTER_MAX then overflow_wait b + 1 else overflow_wait b) \<and>
      (COUNTER (deref c' bmc') = COUNTER_MAX \<longrightarrow>
         COUNTER (deref (counts (step_state (endwrite_step b offset success))) bmc')
           < COUNTER_MAX)"
  proof
    assume g: "bitmap_get_counter (counts b) offset False False = (Some bmc', blocks', c')"
    define v where "v = (if \<not> success \<and> \<not> NEEDED (deref c' bmc') then deref c' bmc' OR NEEDED_MASK
                     else deref c' bmc')"
    from endwrite_step_value [OF g, of success] obtain b' where
      s: "endwrite_step b offset success = Step_done b' blocks'"
      and d: "deref (counts b') bmc' = v - 1"
      and o: "overflow_wait b' =
        (if COUNTER v = COUNTER_MAX then overflow_wait b + 1 else overflow_wait b)"
      unfolding v_def by blast
    have cv: "COUNTER v = COUNTER (deref c' bmc')"
      by (simp add: v_def or_needed del: deref.simps)
    have "COUNTER (v - 1) < COUNTER_MAX" if m: "COUNTER (deref c' bmc') = COUNTER_MAX"
    proof -
      from m cv have "COUNTER v \<noteq> 0" by (simp add: COUNTER_MAX_def)
      from counter_dec(4) [OF this] cv m show ?thesis by simp
    qed
    with o s d cv show "overflow_wait (step_state (endwrite_step b offset success)) =
        (if COUNTER (deref c' bmc') = COUNTER_MAX then overflow_wait b + 1 else overflow_wait b) \<and>
      (COUNTER (deref c' bmc') = COUNTER_MAX \<longrightarrow>
         COUNTER (deref (counts (step_state (endwrite_step b offset success))) bmc')
           < COUNTER_MAX)"
      by (simp del: deref.simps)
  qed
  from one two three show ?thesis by blast
qed

text \<open>
  With 16381 writes to chunk 0 in flight the counter is at \<^verbatim>\<open>COUNTER_MAX\<close>: the
  state is reachable, the next \<^verbatim>\<open>bitmap_startwrite\<close> sleeps and leaves the state
  as it is, and a pass of \<^verbatim>\<open>bitmap_endwrite\<close> wakes the sleepers and leaves the
  count below \<^verbatim>\<open>COUNTER_MAX\<close>.
\<close>

theorem counter_stays_bounded_witness:
  "reachable saturated_bitmap \<and>
   counter_value (counts saturated_bitmap) 0 = COUNTER_MAX \<and>
   COUNTER (counter_value (counts saturated_bitmap) 0) \<le> COUNTER_MAX \<and>
   startwrite_step saturated_bitmap 0 True = Step_wait saturated_bitmap \<and>
   startwrite_loop saturated_bitmap 0 8 (\<lambda>i. True) = Suspended saturated_bitmap 0 8 \<and>
   overflow_wait (step_state (endwrite_step saturated_bitmap 0 True))
     = overflow_wait saturated_bitmap + 1 \<and>
   COUNTER (deref (counts (step_state (endwrite_step saturated_bitmap 0 True)))
              (bmc_of (counts saturated_bitmap) 0)) < COUNTER_MAX"
proof -
  note sf = saturated_bitmap_facts
  define bmc where "bmc = bmc_of (counts saturated_bitmap) 0"
  have g: "bitmap_get_counter (counts saturated_bitmap) 0 create ok
             = (Some bmc, blocks_of (counts saturated_bitmap) 0, counts saturated_bitmap)"
    for create ok
    unfolding bmc_def by (rule get_counter_ready [OF sf(2)])
  have d: "deref (counts saturated_bitmap) bmc = COUNTER_MAX"
    using sf(1) sf(2) by (simp add: counter_value_ready bmc_def del: deref.simps)
  have m: "COUNTER COUNTER_MAX = COUNTER_MAX" by (simp add: COUNTER_def COUNTER_MAX_def)
  have i: "saturated_bitmap\<lparr>counts := counts saturated_bitmap\<rparr> = saturated_bitmap" by simp
  note t = counter_stays_bounded [where b = saturated_bitmap and offset = 0 and ok = True
      and bmc = bmc and blocks = "blocks_of (counts saturated_bitmap) 0"
      and c = "counts saturated_bitmap" and bmc' = bmc
      and blocks' = "blocks_of (counts saturated_bitmap) 0"
      and c' = "counts saturated_bitmap" and success = True,
      unfolded g d m i]
  from t sf(3) have a: "COUNTER (counter_value (counts saturated_bitmap) 0) \<le> COUNTER_MAX"
    by blast
  from t have b: "startwrite_step saturated_bitmap 0 True = Step_wait saturated_bitmap"
    "startwrite_loop saturated_bitmap 0 8 (\<lambda>i. True) = Suspended saturated_bitmap 0 8"
    "overflow_wait (step_state (endwrite_step saturated_bitmap 0 True))
       = overflow_wait saturated_bitmap + 1"
    "COUNTER (deref (counts (step_state (endwrite_step saturated_bitmap 0 True))) bmc)
       < COUNTER_MAX"
    by simp_all
  from sf(3) sf(1) a b show ?thesis unfolding bmc_def by blast
qed

subsection \<open>C4: a write that fails kicks the image\<close>




end
